theory Spec2Isabelle
  imports Complex_Main "HOL-Library.Word"
begin

section \<open>Common data: Python errors and numpy arrays\<close>

text \<open>
  The notebooks are Python; an exception is a value of \<open>py_error\<close> and a computation that
  may raise returns \<open>py_error + 'a\<close>. In the labeler notebook and in the curve-fitting
  helpers a one-dimensional numpy array is a list of reals and a two-dimensional one the
  list of its rows: the arrays of the labeler hold only the numbers 0 and 1, and \<open>gauss\<close>
  is studied as the real function that its formula denotes. The linear-algebra cells
  (\<open>ridge\<close>, the projections, the covariance) are modelled over an arbitrary element
  type, with instances for exact arithmetic, for float64 and for int64; see the section
  on numpy arrays below.
\<close>

datatype py_error = ValueError | KeyError | TypeError | IndexError | LinAlgError

type_synonym vec = "real list"
type_synonym mat = "real list list"

section \<open>utils/Labeler\_example.ipynb\<close>

subsection \<open>The configuration cells\<close>

text \<open>The dict \<open>tag_specs\<close>, in insertion order, and the levels of the distance feature.\<close>

definition tag_specs :: "(string \<times> string list) list" where
  "tag_specs =
    [(''outdoors'', [''outdoors'', ''indoors'', ''under water'', ''unclear'', ''not a scene'', ''untagged'']),
     (''evoked_emotion'', [''Anger'', ''Disgust'', ''Fear'', ''Happiness'', ''Sadness'', ''Surprise'', ''Neutral'', ''untagged'']),
     (''reward'', [''0'', ''1'', ''2'', ''3'', ''4'', ''untagged'']),
     (''curves_vs_lines'', [''curved'', ''mix'', ''lines'', ''untagged''])]"

definition distance_features :: "string list" where
  "distance_features =
    [''<2 ft'', ''<4 ft (arm's length)'', ''<20 ft (same room)'', ''< 100 ft'', ''> 100 ft'', ''untagged'']"

definition tag_dict :: "(string \<times> string list) list" where
  "tag_dict = [(''distance'', distance_features)]"

text \<open>
  Python's \<open>range(start, stop, step)\<close>: \<open>ValueError\<close> for a zero step, otherwise the
  arithmetic progression from \<open>start\<close> that stays before \<open>stop\<close>.
\<close>

definition range_len :: "int \<Rightarrow> int \<Rightarrow> int \<Rightarrow> nat" where
  "range_len start stop step =
     (if step > 0 then nat ((stop - start + step - 1) div step)
      else nat ((start - stop - step - 1) div (- step)))"

definition py_range :: "int \<Rightarrow> int \<Rightarrow> int \<Rightarrow> py_error + int list" where
  "py_range start stop step =
     (if step = 0 then Inl ValueError
      else Inr (map (\<lambda>k. start + int k * step) [0..<range_len start stop step]))"

definition label_range :: "py_error + int list" where
  "label_range = py_range 0 1386 1"

subsection \<open>The conversion cell\<close>

text \<open>
  \<open>feature_names.index(this_label)\<close>: the position of the first element equal to the
  label, \<open>ValueError\<close> when there is none.
\<close>

fun list_index :: "'a list \<Rightarrow> 'a \<Rightarrow> py_error + nat" where
  "list_index [] x = Inl ValueError"
| "list_index (y # ys) x =
     (if y = x then Inr 0
      else (case list_index ys x of Inl e \<Rightarrow> Inl e | Inr k \<Rightarrow> Inr (Suc k)))"

text \<open>\<open>np.zeros((n, m))\<close> and the assignment \<open>X[i, j] = v\<close> (which raises out of range).\<close>

definition zeros :: "nat \<Rightarrow> nat \<Rightarrow> mat" where
  "zeros n m = replicate n (replicate m 0)"

definition setitem2 :: "mat \<Rightarrow> nat \<Rightarrow> nat \<Rightarrow> real \<Rightarrow> py_error + mat" where
  "setitem2 X i j v =
     (if i < length X \<and> j < length (X ! i) then Inr (X[i := (X ! i)[j := v]])
      else Inl IndexError)"

text \<open>
  The loop \<open>for i, this_label in enumerate(feature_labels)\<close>, with the array \<open>X\<close> passed
  along; an exception ends it.
\<close>

fun onehot_loop :: "string list \<Rightarrow> (nat \<times> string) list \<Rightarrow> mat \<Rightarrow> py_error + mat" where
  "onehot_loop feature_names [] X = Inr X"
| "onehot_loop feature_names ((i, this_label) # rest) X =
     (case list_index feature_names this_label of
        Inl e \<Rightarrow> Inl e
      | Inr j \<Rightarrow>
         (case setitem2 X i j 1 of
            Inl e \<Rightarrow> Inl e
          | Inr X' \<Rightarrow> onehot_loop feature_names rest X'))"

definition design_matrix :: "string list \<Rightarrow> string list \<Rightarrow> py_error + mat" where
  "design_matrix feature_names feature_labels =
     (let n_images = length feature_labels;
          n_features = length feature_names;
          X = zeros n_images n_features
      in onehot_loop feature_names (enumerate 0 feature_labels) X)"

subsection \<open>Loading the label file\<close>

text \<open>What \<open>json.load\<close> returns: the decoded JSON value, an object being a Python dict.\<close>

datatype json =
  JNull | JBool bool | JNumber real | JString string | JArray "json list"
  | JObject "(string \<times> json) list"

text \<open>
  Subscription \<open>v[k]\<close> with a string key: a dict raises \<open>KeyError\<close> for a missing key,
  every other JSON value raises \<open>TypeError\<close>.
\<close>

fun getitem :: "json \<Rightarrow> string \<Rightarrow> py_error + json" where
  "getitem (JObject kvs) k = (case map_of kvs k of None \<Rightarrow> Inl KeyError | Some v \<Rightarrow> Inr v)"
| "getitem v k = Inl TypeError"

text \<open>The consumer's retrieval, \<open>feature_labels = features['tag_specs']['distance']\<close>.\<close>

definition feature_labels_of :: "json \<Rightarrow> py_error + json" where
  "feature_labels_of features =
     (case getitem features ''tag_specs'' of
        Inl e \<Rightarrow> Inl e
      | Inr specs \<Rightarrow> getitem specs ''distance'')"

text \<open>
  Modelled from the spec: the labeler widget (\<open>labeler.ImageTagger\<close>) that writes the
  label file is not among the sources. The spec describes the decoded file as an object
  keyed by tag-specification name, each value the ordered array of string labels, plus
  the original tag specification echoed back. The spec does not name the key of the
  echo, so it is the parameter \<open>echo_key\<close>; \<open>specs\<close> is the tag specification given to the
  widget and \<open>labels\<close> holds the labels recorded for each name.
\<close>

definition json_strings :: "string list \<Rightarrow> json" where
  "json_strings ls = JArray (map JString ls)"

definition labeler_output ::
    "string \<Rightarrow> (string \<times> string list) list \<Rightarrow> (string \<times> string list) list \<Rightarrow> json" where
  "labeler_output echo_key specs labels =
     JObject (map (\<lambda>(S, ls). (S, json_strings ls)) labels @
              [(echo_key, JObject (map (\<lambda>(S, levels). (S, json_strings levels)) specs))])"

section \<open>Week\_13\_Curve\_fitting2\_NonlinearVsLinearized\_answers.ipynb\<close>

subsection \<open>The helper functions\<close>

text \<open>
  \<open>gauss\<close> returns \<open>amp * np.e**(-(x-mu)**2 / (2*sigma))\<close>; the power binds tighter than
  the unary minus. The division is a division of reals, so the model says nothing about
  \<open>sigma = 0\<close>. On an array the function is applied to each element.
\<close>

definition gauss :: "real \<Rightarrow> real \<Rightarrow> real \<Rightarrow> real \<Rightarrow> real" where
  "gauss x mu sigma amp = amp * exp 1 powr (- ((x - mu)\<^sup>2) / (2 * sigma))"

definition gauss_array :: "vec \<Rightarrow> real \<Rightarrow> real \<Rightarrow> real \<Rightarrow> vec" where
  "gauss_array xs mu sigma amp = map (\<lambda>x. gauss x mu sigma amp) xs"

text \<open>
  The function the docstring of \<open>gauss\<close> announces (\<open>sigma\<close>: std of Gaussian): the
  standard Gaussian curve with standard deviation \<open>sigma\<close>.
\<close>

definition standard_gaussian :: "real \<Rightarrow> real \<Rightarrow> real \<Rightarrow> real \<Rightarrow> real" where
  "standard_gaussian x mu sigma amp = amp * exp (- ((x - mu)\<^sup>2) / (2 * sigma\<^sup>2))"

section \<open>numpy arrays and the operations of the library\<close>

text \<open>
  The linear-algebra cells work on numpy arrays of float64 numbers, or of int64 numbers
  for the arrays \<open>a\<close> and \<open>b\<close> of the PCA notebook. What they return depends on how the
  library evaluates its operations (the rounding, a fused multiply-add in the inner
  products, the factorisation behind \<open>np.linalg.inv\<close>), which the notebooks do not fix.
  The cells are therefore modelled over an arbitrary element type \<open>'a\<close>: the library's
  operations on numbers are the fields of the record \<open>'a numpy\<close>, where \<open>np_float\<close>
  converts a Python integer, \<open>np_sum\<close> is the sum of a one-dimensional array and \<open>np_dot\<close>
  the inner product of two one-dimensional arrays of one length. Instances for exact
  real arithmetic, for IEEE 754 binary64 and for int64 follow the cells.

  A two-dimensional array carries its shape \<open>(nrows, ncols)\<close> together with the list of
  its rows, so that an array without rows or without columns keeps its shape; \<open>wf2\<close>
  says that the rows agree with the shape. \<open>A.T\<close> is \<open>arr_T\<close>, \<open>A.dot(B)\<close> for a
  two-dimensional \<open>B\<close> is \<open>arr_dot\<close> and \<open>A.dot(v)\<close> for a one-dimensional \<open>v\<close> is
  \<open>arr_dot_vec\<close>; both products raise \<open>ValueError\<close> when the inner dimensions differ.
\<close>

datatype 'a arr2 = Arr2 (nrows: nat) (ncols: nat) (entries: "'a list list")

definition wf2 :: "'a arr2 \<Rightarrow> bool" where
  "wf2 A \<longleftrightarrow> length (entries A) = nrows A \<and> list_all (\<lambda>r. length r = ncols A) (entries A)"

record 'a numpy =
  np_add :: "'a \<Rightarrow> 'a \<Rightarrow> 'a"
  np_sub :: "'a \<Rightarrow> 'a \<Rightarrow> 'a"
  np_mul :: "'a \<Rightarrow> 'a \<Rightarrow> 'a"
  np_div :: "'a \<Rightarrow> 'a \<Rightarrow> 'a"
  np_float :: "int \<Rightarrow> 'a"
  np_sum :: "'a list \<Rightarrow> 'a"
  np_dot :: "'a list \<Rightarrow> 'a list \<Rightarrow> 'a"

definition column :: "'a arr2 \<Rightarrow> nat \<Rightarrow> 'a list" where
  "column A j = map (\<lambda>r. r ! j) (entries A)"

definition arr_T :: "'a arr2 \<Rightarrow> 'a arr2" where
  "arr_T A = Arr2 (ncols A) (nrows A) (map (column A) [0..<ncols A])"

definition arr_dot :: "('a list \<Rightarrow> 'a list \<Rightarrow> 'a) \<Rightarrow> 'a arr2 \<Rightarrow> 'a arr2 \<Rightarrow> py_error + 'a arr2" where
  "arr_dot dot A B =
     (if ncols A = nrows B
      then Inr (Arr2 (nrows A) (ncols B)
                 (map (\<lambda>r. map (\<lambda>j. dot r (column B j)) [0..<ncols B]) (entries A)))
      else Inl ValueError)"

definition arr_dot_vec :: "('a list \<Rightarrow> 'a list \<Rightarrow> 'a) \<Rightarrow> 'a arr2 \<Rightarrow> 'a list \<Rightarrow> py_error + 'a list" where
  "arr_dot_vec dot A v =
     (if ncols A = length v then Inr (map (\<lambda>r. dot r v) (entries A)) else Inl ValueError)"

text \<open>
  \<open>np.eye(n)\<close>, the product \<open>a * M\<close> of a number and an array, and the sum of two arrays
  of one shape. numpy would broadcast some arrays of different shapes; \<open>ridge\<close> only adds
  two square arrays of the same size, and \<open>arr_add\<close> raises \<open>ValueError\<close> on any other pair.
\<close>

definition eye :: "'a numpy \<Rightarrow> nat \<Rightarrow> 'a arr2" where
  "eye N n = Arr2 n n (map (\<lambda>i. map (\<lambda>j. if i = j then np_float N 1 else np_float N 0) [0..<n]) [0..<n])"

definition scalar_mul :: "'a numpy \<Rightarrow> 'a \<Rightarrow> 'a arr2 \<Rightarrow> 'a arr2" where
  "scalar_mul N a A = Arr2 (nrows A) (ncols A) (map (map (np_mul N a)) (entries A))"

definition arr_add :: "'a numpy \<Rightarrow> 'a arr2 \<Rightarrow> 'a arr2 \<Rightarrow> py_error + 'a arr2" where
  "arr_add N A B =
     (if nrows A = nrows B \<and> ncols A = ncols B
      then Inr (Arr2 (nrows A) (ncols A) (map2 (map2 (np_add N)) (entries A) (entries B)))
      else Inl ValueError)"

section \<open>The ridge helper of the curve-fitting notebook\<close>

text \<open>
  \<open>ridge\<close> returns
  \<open>np.linalg.inv(X.T.dot(X) + a * np.eye(X.shape[1])).dot(X.T.dot(Y))\<close>.
  Python evaluates the inverse first, then \<open>X.T.dot(Y)\<close>, then the product; the first
  exception ends the evaluation. \<open>X\<close> is a two-dimensional array and \<open>Y\<close> a
  one-dimensional one, as in the notebook. \<open>np.linalg.inv\<close> is a routine of the library and
  a parameter here, \<open>linalg_inv\<close>: it returns an array or raises. The cell
  \<open>B_est = ridge(Xreg, y, a=0)\<close> calls \<open>ridge\<close> with no handler around the call.
\<close>

definition ridge ::
    "'a numpy \<Rightarrow> ('a arr2 \<Rightarrow> py_error + 'a arr2) \<Rightarrow> 'a arr2 \<Rightarrow> 'a list \<Rightarrow> 'a \<Rightarrow> py_error + 'a list" where
  "ridge N linalg_inv X Y a =
     (case arr_dot (np_dot N) (arr_T X) X of
        Inl e \<Rightarrow> Inl e
      | Inr XtX \<Rightarrow>
         (case arr_add N XtX (scalar_mul N a (eye N (ncols X))) of
            Inl e \<Rightarrow> Inl e
          | Inr A \<Rightarrow>
             (case linalg_inv A of
                Inl e \<Rightarrow> Inl e
              | Inr Ainv \<Rightarrow>
                 (case arr_dot_vec (np_dot N) (arr_T X) Y of
                    Inl e \<Rightarrow> Inl e
                  | Inr XtY \<Rightarrow> arr_dot_vec (np_dot N) Ainv XtY))))"


section \<open>Week\_14\_PCA.ipynb\<close>

subsection \<open>Projection of one vector onto another\<close>






subsection \<open>The covariance matrix\<close>

text \<open>
  \<open>y.mean(0)\<close> is the array of the column means (the sum of a column divided by the
  number of rows), \<open>y - y.mean(0)\<close> subtracts it from every row, and \<open>ycov\<close> is
  \<open>y_demean.T.dot(y_demean)\<close> divided in place by \<open>len(y) - 1\<close>.
\<close>

definition col_mean :: "'a numpy \<Rightarrow> 'a arr2 \<Rightarrow> 'a list" where
  "col_mean N y =
     map (\<lambda>j. np_div N (np_sum N (column y j)) (np_float N (int (nrows y)))) [0..<ncols y]"

definition demean :: "'a numpy \<Rightarrow> 'a arr2 \<Rightarrow> 'a arr2" where
  "demean N y = Arr2 (nrows y) (ncols y) (map (\<lambda>r. map2 (np_sub N) r (col_mean N y)) (entries y))"


section \<open>Exact arithmetic\<close>

text \<open>
  The operations over the real numbers: what the cells compute when nothing is rounded.
  The inner product is the sum of the products.
\<close>

definition dotp :: "vec \<Rightarrow> vec \<Rightarrow> real" where
  "dotp a b = sum_list (map2 (*) a b)"

definition real_numpy :: "real numpy" where
  "real_numpy =
     \<lparr>np_add = (+), np_sub = (-), np_mul = (*), np_div = (/), np_float = of_int,
      np_sum = sum_list, np_dot = dotp\<rparr>"

text \<open>
  \<open>np.linalg.inv\<close> in exact arithmetic: it raises \<open>LinAlgError\<close> when the array is not
  square and when the matrix is singular, and returns the inverse otherwise (this is
  proved below). \<open>exact_inv\<close> computes it by Gauss-Jordan elimination on the rows of
  \<open>[A | I]\<close>: \<open>split_pivot\<close> looks, among the rows not yet used, for the first one with a
  nonzero entry in column \<open>j\<close>; that row is scaled to have 1 there and subtracted from
  every other row. When no such row exists the matrix is singular. LAPACK takes the
  pivot of largest magnitude instead of the first one; in exact arithmetic the inverse
  is unique, so the choice does not change the result.
\<close>

type_synonym aug_row = "vec \<times> vec"

definition scale_row :: "real \<Rightarrow> aug_row \<Rightarrow> aug_row" where
  "scale_row c row = (map ((*) c) (fst row), map ((*) c) (snd row))"

definition sub_row :: "aug_row \<Rightarrow> real \<Rightarrow> aug_row \<Rightarrow> aug_row" where
  "sub_row row c pivot =
     (map2 (\<lambda>u v. u - c * v) (fst row) (fst pivot),
      map2 (\<lambda>u v. u - c * v) (snd row) (snd pivot))"

fun split_pivot :: "nat \<Rightarrow> aug_row list \<Rightarrow> (aug_row list \<times> aug_row \<times> aug_row list) option" where
  "split_pivot j [] = None"
| "split_pivot j (row # rows) =
     (if fst row ! j \<noteq> 0 then Some ([], row, rows)
      else (case split_pivot j rows of
              None \<Rightarrow> None
            | Some (pre, p, post) \<Rightarrow> Some (row # pre, p, post)))"

function gauss_jordan :: "nat \<Rightarrow> aug_row list \<Rightarrow> aug_row list \<Rightarrow> aug_row list option" where
  "gauss_jordan j reduced rest =
     (if rest = [] then Some reduced
      else (case split_pivot j rest of
              None \<Rightarrow> None
            | Some (pre, p, post) \<Rightarrow>
                (let pivot = scale_row (1 / fst p ! j) p;
                     elim = (\<lambda>row. sub_row row (fst row ! j) pivot)
                 in gauss_jordan (Suc j) (map elim reduced @ [pivot]) (map elim (pre @ post)))))"
  by pat_completeness auto
termination
proof (relation "measure (\<lambda>(j, reduced, rest). length rest)")
  show "wf (measure (\<lambda>(j, reduced, rest). length rest))" by simp
next
  fix j :: nat and reduced rest :: "aug_row list" and x2 pre y p post pivot elim
  assume "split_pivot j rest = Some x2" and "(pre, y) = x2" and "(p, post) = y"
  then have sp: "split_pivot j rest = Some (pre, p, post)" by simp
  have "length rows = Suc (length pre' + length post')"
    if "split_pivot j rows = Some (pre', p', post')" for rows pre' p' post'
    using that
    by (induction rows arbitrary: pre') (auto split: if_splits option.splits)
  from this [OF sp]
  show "((Suc j, map elim reduced @ [pivot], map elim (pre @ post)), j, reduced, rest)
        \<in> measure (\<lambda>(j, reduced, rest). length rest)"
    by simp
qed

definition identity_rows :: "nat \<Rightarrow> mat" where
  "identity_rows n = map (\<lambda>i. map (\<lambda>j. if i = j then 1 else 0) [0..<n]) [0..<n]"

definition gj_inverse :: "mat \<Rightarrow> mat option" where
  "gj_inverse A =
     (case gauss_jordan 0 [] (zip A (identity_rows (length A))) of
        None \<Rightarrow> None
      | Some res \<Rightarrow> Some (map snd res))"

definition exact_inv :: "real arr2 \<Rightarrow> py_error + real arr2" where
  "exact_inv A =
     (if nrows A \<noteq> ncols A then Inl LinAlgError
      else (case gj_inverse (entries A) of
              None \<Rightarrow> Inl LinAlgError
            | Some N \<Rightarrow> Inr (Arr2 (nrows A) (ncols A) N)))"

section \<open>float64 arithmetic\<close>

text \<open>
  IEEE 754 binary64. \<open>Finite s m e\<close> is the number \<open>(-1)\<^sup>s m 2\<^sup>e\<close>, with the sign \<open>s\<close> kept
  for zero; the numbers that the operations return have \<open>m < 2\<^sup>5\<^sup>3\<close> and
  \<open>-1074 \<le> e \<le> 971\<close>, and \<open>2\<^sup>5\<^sup>2 \<le> m\<close> unless \<open>e = -1074\<close> (the subnormal numbers and zero).
  \<open>bits n\<close> is the number of binary digits of \<open>n\<close>. \<open>round_f64 s M E sticky\<close> rounds the
  number of sign \<open>s\<close> and magnitude \<open>M 2\<^sup>E\<close>, or slightly more than that when \<open>sticky\<close>
  holds, to the nearest float64, ties to even, with gradual underflow and with overflow
  to infinity. Addition, subtraction, multiplication, division and square root round
  the exact result once; so does the fused multiply-add \<open>ffma x y z\<close>, which is
  \<open>x y + z\<close>. \<open>isqrt\<close> is the integer square root. \<open>valof\<close> is the real number that a
  finite float64 denotes.
\<close>

datatype f64 = Finite bool int int | Infinity bool | NaN














definition valof :: "f64 \<Rightarrow> real option" where
  "valof x =
     (case x of
        Finite s m e \<Rightarrow>
          Some ((if s then - 1 else 1) *
                (if 0 \<le> e then of_int m * 2 ^ nat e else of_int m / 2 ^ nat (- e)))
      | Infinity s \<Rightarrow> None
      | NaN \<Rightarrow> None)"








section \<open>Specification predicates\<close>

text \<open>
  A real matrix is invertible when it is square and has a two-sided inverse. The other
  predicates describe the state of the elimination: a row \<open>(l, r)\<close> of the augmented
  matrix stands for the equation \<open>l \<cdot> x = r \<cdot> y\<close>, and after \<open>j\<close> columns the rows already
  used carry unit vectors in these columns and the other rows carry zeros.
\<close>

definition is_mat :: "nat \<Rightarrow> nat \<Rightarrow> mat \<Rightarrow> bool" where
  "is_mat n m A \<longleftrightarrow> length A = n \<and> list_all (\<lambda>r. length r = m) A"

definition invertible :: "real arr2 \<Rightarrow> bool" where
  "invertible A \<longleftrightarrow>
     wf2 A \<and> nrows A = ncols A \<and>
     (\<exists>B. wf2 B \<and> nrows B = nrows A \<and> ncols B = nrows A \<and>
          arr_dot dotp A B = Inr (eye real_numpy (nrows A)) \<and>
          arr_dot dotp B A = Inr (eye real_numpy (nrows A)))"

definition sat :: "vec \<Rightarrow> vec \<Rightarrow> aug_row \<Rightarrow> bool" where
  "sat x y row \<longleftrightarrow> dotp (fst row) x = dotp (snd row) y"

definition wf_row :: "nat \<Rightarrow> aug_row \<Rightarrow> bool" where
  "wf_row n row \<longleftrightarrow> length (fst row) = n \<and> length (snd row) = n"

definition reduced_inv :: "nat \<Rightarrow> nat \<Rightarrow> aug_row list \<Rightarrow> aug_row list \<Rightarrow> bool" where
  "reduced_inv n j red rest \<longleftrightarrow>
     length red = j \<and> j + length rest = n \<and>
     (\<forall>row\<in>set (red @ rest). wf_row n row) \<and>
     (\<forall>i<j. \<forall>k<j. fst (red ! i) ! k = (if k = i then 1 else 0)) \<and>
     (\<forall>row\<in>set rest. \<forall>k<j. fst row ! k = 0)"

section \<open>Properties of the labeler notebook\<close>

lemma list_index_Inr_iff:
  "list_index xs x = Inr j \<longleftrightarrow> j < length xs \<and> xs ! j = x \<and> (\<forall>k<j. xs ! k \<noteq> x)"
proof (induction xs arbitrary: j)
  case Nil
  show ?case by simp
next
  case (Cons y ys)
  show ?case
  proof (cases "y = x")
    case True
    then show ?thesis by (cases j) auto
  next
    case False
    show ?thesis
    proof (cases j)
      case 0
      with False show ?thesis by (auto split: sum.splits)
    next
      case (Suc j')
      have "(\<forall>k<Suc j'. (y # ys) ! k \<noteq> x) \<longleftrightarrow> (\<forall>k<j'. ys ! k \<noteq> x)"
        using False by (auto simp: less_Suc_eq_0_disj)
      with False Suc Cons.IH [of j'] show ?thesis
        by (auto split: sum.splits)
    qed
  qed
qed

lemma list_index_member:
  "x \<in> set xs \<Longrightarrow> \<exists>j. list_index xs x = Inr j"
  by (induction xs) (auto split: sum.splits)

lemma list_index_Inl_iff:
  "(\<exists>e. list_index xs x = Inl e) \<longleftrightarrow> x \<notin> set xs"
  by (induction xs) (auto split: sum.splits)

lemma sum_list_onehot:
  "j < length xs \<Longrightarrow> sum_list ((xs :: real list)[j := v]) = sum_list xs + v - xs ! j"
proof (induction xs arbitrary: j)
  case Nil
  then show ?case by simp
next
  case (Cons x xs)
  then show ?case by (cases j) auto
qed

lemma onehot_loop_enumerate:
  assumes "set ls \<subseteq> set names"
    and "k + length ls \<le> length X"
    and "\<forall>i<length X. length (X ! i) = length names"
  shows "\<exists>X'. onehot_loop names (enumerate k ls) X = Inr X' \<and> length X' = length X \<and>
           (\<forall>i<length X. \<exists>j. X' ! i =
              (if k \<le> i \<and> i < k + length ls
               then (X ! i)[j := 1] else X ! i) \<and>
              (k \<le> i \<and> i < k + length ls \<longrightarrow> list_index names (ls ! (i - k)) = Inr j))"
  using assms
proof (induction ls arbitrary: k X)
  case Nil
  then show ?case by auto
next
  case (Cons l ls)
  from Cons.prems(1) obtain j where j: "list_index names l = Inr j"
    using list_index_member [of l names] by auto
  then have jlt: "j < length names" by (simp add: list_index_Inr_iff)
  from Cons.prems(2) have klt: "k < length X" by simp
  define X1 where "X1 = X[k := (X ! k)[j := 1]]"
  have set1: "setitem2 X k j 1 = Inr X1"
    using klt jlt Cons.prems(3) by (simp add: setitem2_def X1_def)
  have len1: "length X1 = length X" by (simp add: X1_def)
  have rows1: "\<forall>i<length X1. length (X1 ! i) = length names"
    using Cons.prems(3) klt by (auto simp: X1_def nth_list_update)
  have "set ls \<subseteq> set names" using Cons.prems(1) by simp
  moreover have "Suc k + length ls \<le> length X1" using Cons.prems(2) len1 by simp
  ultimately obtain X' where X': "onehot_loop names (enumerate (Suc k) ls) X1 = Inr X'"
    "length X' = length X1"
    "\<forall>i<length X1. \<exists>j. X' ! i =
        (if Suc k \<le> i \<and> i < Suc k + length ls then (X1 ! i)[j := 1] else X1 ! i) \<and>
        (Suc k \<le> i \<and> i < Suc k + length ls \<longrightarrow> list_index names (ls ! (i - Suc k)) = Inr j)"
    using Cons.IH [of "Suc k" X1] rows1 by blast
  have run: "onehot_loop names (enumerate k (l # ls)) X = Inr X'"
    using j set1 X'(1) by simp
  have "\<exists>j'. X' ! i =
           (if k \<le> i \<and> i < k + length (l # ls) then (X ! i)[j' := 1] else X ! i) \<and>
           (k \<le> i \<and> i < k + length (l # ls) \<longrightarrow> list_index names ((l # ls) ! (i - k)) = Inr j')"
    if i: "i < length X" for i
  proof (cases "i = k")
    case True
    with X'(3) len1 i have "X' ! i = X1 ! i" by auto
    with True klt j show ?thesis by (auto simp: X1_def)
  next
    case False
    from X'(3) len1 i obtain j' where j':
      "X' ! i = (if Suc k \<le> i \<and> i < Suc k + length ls then (X1 ! i)[j' := 1] else X1 ! i)"
      "Suc k \<le> i \<and> i < Suc k + length ls \<longrightarrow> list_index names (ls ! (i - Suc k)) = Inr j'"
      by auto
    have same: "X1 ! i = X ! i" using False by (simp add: X1_def)
    show ?thesis
    proof (cases "Suc k \<le> i \<and> i < Suc k + length ls")
      case True
      then have "i - k = Suc (i - Suc k)" by arith
      then have "(l # ls) ! (i - k) = ls ! (i - Suc k)" by simp
      with True j' same show ?thesis by auto
    next
      case False
      with \<open>i \<noteq> k\<close> j' same show ?thesis by auto
    qed
  qed
  with run X'(2) len1 show ?case by auto
qed

lemma design_matrix_rows:
  assumes "set feature_labels \<subseteq> set feature_names"
  shows "\<exists>X. design_matrix feature_names feature_labels = Inr X \<and>
           length X = length feature_labels \<and>
           (\<forall>i<length feature_labels. \<exists>j. list_index feature_names (feature_labels ! i) = Inr j \<and>
              X ! i = (replicate (length feature_names) 0)[j := 1])"
proof -
  let ?Z = "zeros (length feature_labels) (length feature_names)"
  have "0 + length feature_labels \<le> length ?Z" by (simp add: zeros_def)
  moreover have "\<forall>i<length ?Z. length (?Z ! i) = length feature_names"
    by (simp add: zeros_def)
  ultimately obtain X where X: "onehot_loop feature_names (enumerate 0 feature_labels) ?Z = Inr X"
    "length X = length ?Z"
    "\<forall>i<length ?Z. \<exists>j. X ! i =
        (if 0 \<le> i \<and> i < 0 + length feature_labels then (?Z ! i)[j := 1] else ?Z ! i) \<and>
        (0 \<le> i \<and> i < 0 + length feature_labels \<longrightarrow>
           list_index feature_names (feature_labels ! (i - 0)) = Inr j)"
    using onehot_loop_enumerate [OF assms, of 0 ?Z] by blast
  have "design_matrix feature_names feature_labels = Inr X"
    using X(1) by (simp add: design_matrix_def)
  moreover have "length X = length feature_labels" using X(2) by (simp add: zeros_def)
  moreover have "\<exists>j. list_index feature_names (feature_labels ! i) = Inr j \<and>
      X ! i = (replicate (length feature_names) 0)[j := 1]"
    if "i < length feature_labels" for i
    using X(3) that by (auto simp: zeros_def)
  ultimately show ?thesis by blast
qed

text \<open>
  Claim C1. When every loaded label occurs in the vocabulary, the conversion cell returns
  a matrix with one row per label and one column per vocabulary entry; row \<open>i\<close> holds 1 in
  the column of the first occurrence of label \<open>i\<close> in the vocabulary and 0 in every other
  column, and so sums to 1.
\<close>

theorem design_matrix_one_hot:
  assumes "set feature_labels \<subseteq> set feature_names"
  shows "\<exists>X. design_matrix feature_names feature_labels = Inr X \<and>
           length X = length feature_labels \<and>
           (\<forall>i<length feature_labels.
              length (X ! i) = length feature_names \<and>
              sum_list (X ! i) = 1 \<and>
              (\<forall>j<length feature_names.
                 X ! i ! j =
                   (if feature_names ! j = feature_labels ! i \<and>
                       (\<forall>k<j. feature_names ! k \<noteq> feature_labels ! i)
                    then 1 else 0)))"
proof -
  from design_matrix_rows [OF assms] obtain X where
    X: "design_matrix feature_names feature_labels = Inr X"
       "length X = length feature_labels"
       "\<forall>i<length feature_labels. \<exists>j. list_index feature_names (feature_labels ! i) = Inr j \<and>
              X ! i = (replicate (length feature_names) 0)[j := 1]"
    by blast
  have "length (X ! i) = length feature_names \<and> sum_list (X ! i) = 1 \<and>
        (\<forall>j<length feature_names.
           X ! i ! j =
             (if feature_names ! j = feature_labels ! i \<and>
                 (\<forall>k<j. feature_names ! k \<noteq> feature_labels ! i)
              then 1 else 0))"
    if i: "i < length feature_labels" for i
  proof -
    from X(3) i obtain j0 where j0: "list_index feature_names (feature_labels ! i) = Inr j0"
      and row: "X ! i = (replicate (length feature_names) 0)[j0 := 1]" by blast
    from j0 have first: "j0 < length feature_names" "feature_names ! j0 = feature_labels ! i"
      "\<forall>k<j0. feature_names ! k \<noteq> feature_labels ! i"
      by (simp_all add: list_index_Inr_iff)
    have "length (X ! i) = length feature_names" by (simp add: row)
    moreover have "sum_list (X ! i) = 1"
      using first(1) by (simp add: row sum_list_onehot sum_list_replicate)
    moreover have "X ! i ! j =
        (if feature_names ! j = feature_labels ! i \<and>
            (\<forall>k<j. feature_names ! k \<noteq> feature_labels ! i) then 1 else 0)"
      if j: "j < length feature_names" for j
    proof (cases "j = j0")
      case True
      with first row show ?thesis by simp
    next
      case False
      have "\<not> (feature_names ! j = feature_labels ! i \<and>
                (\<forall>k<j. feature_names ! k \<noteq> feature_labels ! i))"
      proof
        assume a: "feature_names ! j = feature_labels ! i \<and>
                (\<forall>k<j. feature_names ! k \<noteq> feature_labels ! i)"
        with j have "list_index feature_names (feature_labels ! i) = Inr j"
          by (simp add: list_index_Inr_iff)
        with j0 False show False by simp
      qed
      with False row j show ?thesis by simp
    qed
    ultimately show ?thesis by blast
  qed
  with X(1,2) show ?thesis by blast
qed

theorem design_matrix_one_hot_witness:
  "set [''<2 ft'', ''untagged''] \<subseteq> set distance_features \<and>
   (\<exists>X. design_matrix distance_features [''<2 ft'', ''untagged''] = Inr X \<and> length X = 2 \<and>
        sum_list (X ! 0) = 1 \<and> sum_list (X ! 1) = 1 \<and>
        X ! 0 ! 0 = 1 \<and> X ! 0 ! 5 = 0 \<and> X ! 1 ! 0 = 0)"
proof -
  have h: "set [''<2 ft'', ''untagged''] \<subseteq> set distance_features"
    by (simp add: distance_features_def)
  from design_matrix_one_hot [OF h] obtain X where
    X: "design_matrix distance_features [''<2 ft'', ''untagged''] = Inr X"
       "length X = length [''<2 ft'', ''untagged'']"
       "\<forall>i<length [''<2 ft'', ''untagged''].
              length (X ! i) = length distance_features \<and>
              sum_list (X ! i) = 1 \<and>
              (\<forall>j<length distance_features.
                 X ! i ! j =
                   (if distance_features ! j = [''<2 ft'', ''untagged''] ! i \<and>
                       (\<forall>k<j. distance_features ! k \<noteq> [''<2 ft'', ''untagged''] ! i)
                    then 1 else 0))"
    by blast
  from X(3) have r0: "sum_list (X ! 0) = 1" and r1: "sum_list (X ! 1) = 1"
    and e0: "\<forall>j<length distance_features. X ! 0 ! j =
        (if distance_features ! j = ''<2 ft'' \<and> (\<forall>k<j. distance_features ! k \<noteq> ''<2 ft'')
         then 1 else 0)"
    and e1: "\<forall>j<length distance_features. X ! 1 ! j =
        (if distance_features ! j = ''untagged'' \<and> (\<forall>k<j. distance_features ! k \<noteq> ''untagged'')
         then 1 else 0)"
    by auto
  have "X ! 0 ! 0 = 1"
    using e0 [rule_format, of 0] by (simp add: distance_features_def)
  moreover have "X ! 0 ! 5 = 0"
    using e0 [rule_format, of 5] by (simp add: distance_features_def)
  moreover have "X ! 1 ! 0 = 0"
    using e1 [rule_format, of 0] by (simp add: distance_features_def)
  ultimately show ?thesis using h X(1,2) r0 r1 by auto
qed

text \<open>
  Claim C6. Each of the four level lists of \<open>tag_specs\<close> (outdoors, evoked\_emotion,
  reward, curves\_vs\_lines) and the list \<open>distance_features\<close> contains the label
  \<open>untagged\<close>.
\<close>

theorem untagged_in_every_spec:
  "map fst tag_specs = [''outdoors'', ''evoked_emotion'', ''reward'', ''curves_vs_lines''] \<and>
   list_all (\<lambda>(name, levels). ''untagged'' \<in> set levels) tag_specs \<and>
   ''untagged'' \<in> set distance_features \<and>
   list_all (\<lambda>(name, levels). ''untagged'' \<in> set levels) tag_dict"
  by (simp add: tag_specs_def distance_features_def tag_dict_def)

lemma label_range_value: "label_range = Inr (map int [0..<1386])"
  by (simp add: label_range_def py_range_def range_len_def)

lemma set_label_range: "set (map int [0..<1386]) = {0..1385}"
proof
  show "set (map int [0..<1386]) \<subseteq> {0..1385}" by auto
next
  show "{0..1385} \<subseteq> set (map int [0..<1386])"
  proof
    fix x :: int
    assume "x \<in> {0..1385}"
    then have "x = int (nat x)" "nat x < 1386" by auto
    then show "x \<in> set (map int [0..<1386])"
      by (metis atLeastLessThan_iff image_eqI le0 set_map set_upt)
  qed
qed

text \<open>
  Claim C7. The configured range \<open>range(0, 1386, 1)\<close> holds exactly the 1386 indices 0 to
  1385, which is 1260 + 126; for a label array with one entry per index of the range,
  drawn from the configured vocabulary, the conversion cell returns a matrix with exactly
  1386 rows.
\<close>

theorem label_range_1386_rows:
  "\<exists>r. label_range = Inr r \<and> length r = 1386 \<and> length r = 1260 + 126 \<and>
        set r = {0..1385} \<and> distinct r \<and>
        (\<forall>feature_labels.
           length feature_labels = length r \<and> set feature_labels \<subseteq> set distance_features \<longrightarrow>
           (\<exists>X. design_matrix distance_features feature_labels = Inr X \<and> length X = 1386))"
proof -
  let ?r = "map int [0..<1386]"
  have "length ?r = 1386" by simp
  moreover have "distinct ?r" by (simp add: distinct_map)
  moreover have "\<exists>X. design_matrix distance_features ls = Inr X \<and> length X = 1386"
    if "length ls = length ?r \<and> set ls \<subseteq> set distance_features" for ls
    using design_matrix_rows [of ls distance_features] that by auto
  ultimately show ?thesis
    using label_range_value set_label_range by auto
qed

theorem label_range_1386_rows_witness:
  "length (replicate 1386 ''untagged'') = 1386 \<and>
   set (replicate 1386 ''untagged'') \<subseteq> set distance_features \<and>
   (\<exists>X. design_matrix distance_features (replicate 1386 ''untagged'') = Inr X \<and>
        length X = 1386)"
proof -
  have h: "length (replicate 1386 ''untagged'') = 1386" by simp
  have v: "set (replicate 1386 ''untagged'') \<subseteq> set distance_features"
    by (simp add: distance_features_def)
  from label_range_1386_rows obtain r where
    all: "label_range = Inr r \<and> length r = 1386 \<and> length r = 1260 + 126 \<and>
        set r = {0..1385} \<and> distinct r \<and>
        (\<forall>feature_labels.
           length feature_labels = length r \<and> set feature_labels \<subseteq> set distance_features \<longrightarrow>
           (\<exists>X. design_matrix distance_features feature_labels = Inr X \<and> length X = 1386))"
    by (rule exE)
  note r = all [THEN conjunct2, THEN conjunct1]
    all [THEN conjunct2, THEN conjunct2, THEN conjunct2, THEN conjunct2, THEN conjunct2]
  from r(2) [rule_format, of "replicate 1386 ''untagged''"] r(1) h v
  have "\<exists>X. design_matrix distance_features (replicate 1386 ''untagged'') = Inr X \<and>
        length X = 1386" by simp
  with h v show ?thesis by blast
qed

section \<open>The label file and its consumer\<close>

lemma getitem_labels:
  "getitem (labeler_output echo_key specs ((S, ls) # rest)) S = Inr (json_strings ls)"
  by (simp add: labeler_output_def)

text \<open>
  Claim C3. In the label file as the spec describes it, the labels of a tag specification
  are the value at the top-level key of its name. The consumer cell does not read them
  there: it reads \<open>features['tag_specs']['distance']\<close>. At a file holding the labels
  \<open>untagged\<close>, \<open><2 ft\<close> for \<open>distance\<close>, the top-level key \<open>distance\<close> holds these labels,
  while the consumer's retrieval never returns them, whatever key the echoed
  specification is stored under; when that key is \<open>tag_specs\<close>, the consumer gets the
  levels of the specification instead.
\<close>

theorem consumer_reads_tag_specs_not_labels:
  "getitem (labeler_output echo_key tag_dict [(''distance'', [''untagged'', ''<2 ft''])]) ''distance''
     = Inr (json_strings [''untagged'', ''<2 ft'']) \<and>
   feature_labels_of (labeler_output echo_key tag_dict [(''distance'', [''untagged'', ''<2 ft''])])
     \<noteq> Inr (json_strings [''untagged'', ''<2 ft'']) \<and>
   feature_labels_of (labeler_output ''tag_specs'' tag_dict [(''distance'', [''untagged'', ''<2 ft''])])
     = Inr (json_strings distance_features)"
  by (simp add: labeler_output_def feature_labels_of_def tag_dict_def json_strings_def
      distance_features_def)

section \<open>Properties of the curve-fitting helpers\<close>

lemma gauss_exp: "gauss x mu sigma amp = amp * exp (- ((x - mu)\<^sup>2) / (2 * sigma))"
  by (simp add: gauss_def powr_def)

lemma gauss_is_gaussian_of_variance:
  assumes "0 < sigma"
  shows "gauss x mu sigma amp = standard_gaussian x mu (sqrt sigma) amp"
  using assms by (simp add: gauss_exp standard_gaussian_def)

text \<open>
  Claim C4. \<open>gauss\<close> is claimed to evaluate \<open>amp * exp(-(x - mu)^2 / (2 * sigma^2))\<close>, with
  \<open>sigma\<close> the standard deviation, as its docstring says. The code divides by
  \<open>2 * sigma\<close>: at \<open>x = 1\<close>, \<open>mu = 0\<close>, \<open>sigma = 2\<close>, \<open>amp = 1\<close> it returns \<open>exp (-1/4)\<close>, and the
  standard Gaussian is \<open>exp (-1/8)\<close> there.
\<close>

theorem gauss_divides_by_sigma_not_its_square:
  "gauss 1 0 2 1 = exp (- 1 / 4) \<and> standard_gaussian 1 0 2 1 = exp (- 1 / 8) \<and>
   gauss 1 0 2 1 \<noteq> standard_gaussian 1 0 2 1"
  by (simp add: gauss_exp standard_gaussian_def)

section \<open>Properties of the array operations\<close>

lemma wf2I:
  "length (entries A) = nrows A \<Longrightarrow> (\<And>i. i < nrows A \<Longrightarrow> length (entries A ! i) = ncols A) \<Longrightarrow> wf2 A"
  by (auto simp: wf2_def list_all_length)

lemma wf2_rows: "wf2 A \<Longrightarrow> length (entries A) = nrows A"
  by (simp add: wf2_def)

lemma wf2_row: "wf2 A \<Longrightarrow> i < nrows A \<Longrightarrow> length (entries A ! i) = ncols A"
  by (auto simp: wf2_def list_all_length)

lemma arr_T_shape [simp]: "nrows (arr_T A) = ncols A" "ncols (arr_T A) = nrows A"
  by (simp_all add: arr_T_def)

lemma arr_T_rows: "entries (arr_T A) = map (column A) [0..<ncols A]"
  by (simp add: arr_T_def)


lemma column_arr_T: "wf2 A \<Longrightarrow> i < nrows A \<Longrightarrow> column (arr_T A) i = entries A ! i"
  by (rule nth_equalityI) (simp_all add: column_def arr_T_def wf2_rows wf2_row)

lemma ridge_inverse_argument:
  "\<exists>XtX A. arr_dot (np_dot N) (arr_T X) X = Inr XtX \<and>
           arr_add N XtX (scalar_mul N a (eye N (ncols X))) = Inr A \<and>
           nrows A = ncols X \<and> ncols A = ncols X"
  by (simp add: arr_dot_def arr_add_def scalar_mul_def eye_def)

lemma ridge_eq:
  assumes G: "arr_dot (np_dot N) (arr_T X) X = Inr XtX"
    and A: "arr_add N XtX (scalar_mul N a (eye N (ncols X))) = Inr A"
  shows "ridge N linalg_inv X Y a =
     (case linalg_inv A of
        Inl e \<Rightarrow> Inl e
      | Inr Ainv \<Rightarrow>
          (if length Y \<noteq> nrows X then Inl ValueError
           else if ncols Ainv \<noteq> ncols X then Inl ValueError
           else Inr (map (\<lambda>r. np_dot N r (map (\<lambda>c. np_dot N c Y) (entries (arr_T X)))) (entries Ainv))))"
  by (simp add: ridge_def G A arr_dot_vec_def arr_T_rows split: sum.splits)

lemma ridge_matrix_formed:
  "\<exists>XtX A. arr_dot (np_dot N) (arr_T X) X = Inr XtX \<and>
     arr_add N XtX (scalar_mul N a (eye N (ncols X))) = Inr A \<and>
     nrows A = ncols X \<and> ncols A = ncols X"
  by (simp add: arr_dot_def arr_add_def scalar_mul_def eye_def)

lemma ridge_fails_on_length_mismatch:
  "length Y \<noteq> nrows X \<Longrightarrow> \<exists>e. ridge N linalg_inv X Y a = Inl e"
  by (simp add: ridge_def arr_dot_def arr_add_def scalar_mul_def eye_def arr_dot_vec_def
      split: sum.splits)

lemma is_mat_nth: "is_mat n m A \<Longrightarrow> i < n \<Longrightarrow> length (A ! i) = m"
  by (auto simp: is_mat_def list_all_length)

lemma is_mat_length: "is_mat n m A \<Longrightarrow> length A = n"
  by (simp add: is_mat_def)

lemma is_matI: "length A = n \<Longrightarrow> (\<And>i. i < n \<Longrightarrow> length (A ! i) = m) \<Longrightarrow> is_mat n m A"
  by (auto simp: is_mat_def list_all_length)

lemma dotp_sum: "length a = length b \<Longrightarrow> dotp a b = (\<Sum>k<length a. a ! k * b ! k)"
proof -
  assume l: "length a = length b"
  have "dotp a b = sum_list (map (\<lambda>k. a ! k * b ! k) [0..<length a])"
    unfolding dotp_def
    by (rule arg_cong [where f = sum_list]) (rule nth_equalityI, auto simp: l)
  also have "\<dots> = (\<Sum>k<length a. a ! k * b ! k)"
    by (simp add: interv_sum_list_conv_sum_set_nat atLeast0LessThan)
  finally show ?thesis .
qed



section \<open>Correctness of the exact inversion\<close>

subsection \<open>Row operations\<close>

lemma dotp_scale: "dotp (map ((*) c) a) x = c * dotp a x"
proof (induction a arbitrary: x)
  case Nil
  show ?case by (simp add: dotp_def)
next
  case (Cons u a)
  show ?case
  proof (cases x)
    case Nil
    then show ?thesis by (simp add: dotp_def)
  next
    case (Cons v x')
    with Cons.IH [of x'] show ?thesis by (simp add: dotp_def algebra_simps)
  qed
qed

lemma dotp_sub:
  "length a = length b \<Longrightarrow> dotp (map2 (\<lambda>u v. u - c * v) a b) x = dotp a x - c * dotp b x"
proof (induction a arbitrary: b x)
  case Nil
  then show ?case by (simp add: dotp_def)
next
  case (Cons u a)
  then obtain v b' where b: "b = v # b'" by (cases b) auto
  show ?case
  proof (cases x)
    case Nil
    then show ?thesis by (simp add: dotp_def)
  next
    case (Cons w x')
    with Cons.IH [of b' x'] Cons.prems b show ?thesis by (simp add: dotp_def algebra_simps)
  qed
qed

lemma dotp_zero: "dotp r (replicate n 0) = 0"
proof (induction r arbitrary: n)
  case Nil
  show ?case by (simp add: dotp_def)
next
  case (Cons u r)
  then show ?case by (cases n) (simp_all add: dotp_def)
qed

lemma identity_rows_nth: "i < n \<Longrightarrow> identity_rows n ! i = map (\<lambda>j. if i = j then 1 else 0) [0..<n]"
  by (simp add: identity_rows_def)

lemma identity_rows_is_mat: "is_mat n n (identity_rows n)"
  by (rule is_matI) (simp_all add: identity_rows_def)

lemma dotp_unit:
  assumes "i < n" "length y = n"
  shows "dotp (map (\<lambda>j. if i = j then 1 else 0) [0..<n]) y = y ! i"
proof -
  have "dotp (map (\<lambda>j. if i = j then 1 else 0) [0..<n]) y
        = (\<Sum>k<n. (map (\<lambda>j. if i = j then 1 else 0) [0..<n]) ! k * y ! k)"
    using assms by (simp add: dotp_sum)
  also have "\<dots> = (\<Sum>k<n. if k = i then y ! k else 0)"
    by (rule sum.cong) auto
  also have "\<dots> = y ! i" using assms by simp
  finally show ?thesis .
qed

lemma sat_scale: "c \<noteq> 0 \<Longrightarrow> sat x y (scale_row c row) = sat x y row"
  by (simp add: sat_def scale_row_def dotp_scale)

lemma sat_sub:
  assumes "wf_row n row" "wf_row n p" "sat x y p"
  shows "sat x y (sub_row row c p) = sat x y row"
  using assms by (simp add: sat_def sub_row_def dotp_sub wf_row_def)

lemma wf_scale: "wf_row n row \<Longrightarrow> wf_row n (scale_row c row)"
  by (simp add: wf_row_def scale_row_def)

lemma wf_sub: "wf_row n row \<Longrightarrow> wf_row n p \<Longrightarrow> wf_row n (sub_row row c p)"
  by (simp add: wf_row_def sub_row_def)

lemma scale_nth: "wf_row n row \<Longrightarrow> k < n \<Longrightarrow> fst (scale_row c row) ! k = c * fst row ! k"
  by (simp add: wf_row_def scale_row_def)

lemma sub_nth:
  "wf_row n row \<Longrightarrow> wf_row n p \<Longrightarrow> k < n \<Longrightarrow>
   fst (sub_row row c p) ! k = fst row ! k - c * fst p ! k"
  by (simp add: wf_row_def sub_row_def)

lemma split_pivot_Some:
  "split_pivot j rows = Some (pre, p, post) \<Longrightarrow> rows = pre @ p # post \<and> fst p ! j \<noteq> 0"
  by (induction rows arbitrary: pre) (auto split: if_splits option.splits)

lemma split_pivot_None:
  "split_pivot j rows = None \<Longrightarrow> \<forall>row\<in>set rows. fst row ! j = 0"
  by (induction rows) (auto split: if_splits option.splits)

lemma gj_step:
  assumes inv: "reduced_inv n j red rest"
    and sp: "split_pivot j rest = Some (pre, p, post)"
    and pivot: "pivot = scale_row (1 / fst p ! j) p"
    and elim: "elim = (\<lambda>row. sub_row row (fst row ! j) pivot)"
  shows "reduced_inv n (Suc j) (map elim red @ [pivot]) (map elim (pre @ post))"
    and "(\<forall>row\<in>set ((map elim red @ [pivot]) @ map elim (pre @ post)). sat x y row)
         \<longleftrightarrow> (\<forall>row\<in>set (red @ rest). sat x y row)"
proof -
  from split_pivot_Some [OF sp] have rest: "rest = pre @ p # post" and pj: "fst p ! j \<noteq> 0"
    by simp_all
  from inv have len: "length red = j" and tot: "j + length rest = n"
    and wf: "\<forall>row\<in>set (red @ rest). wf_row n row"
    and unit: "\<forall>i<j. \<forall>k<j. fst (red ! i) ! k = (if k = i then 1 else 0)"
    and zero: "\<forall>row\<in>set rest. \<forall>k<j. fst row ! k = 0"
    by (simp_all add: reduced_inv_def)
  have jn: "j < n" using tot rest by simp
  have wfp: "wf_row n p" using wf rest by simp
  have wfpiv: "wf_row n pivot" using wfp by (simp add: pivot wf_scale)
  have piv_j: "fst pivot ! j = 1"
    using scale_nth [OF wfp jn] pj by (simp add: pivot)
  have piv_k: "fst pivot ! k = 0" if "k < j" for k
  proof -
    have "k < n" using that jn by simp
    moreover have "fst p ! k = 0" using zero rest that by simp
    ultimately show ?thesis using scale_nth [OF wfp] by (simp add: pivot)
  qed
  have wf_elim: "wf_row n (elim row)" if "wf_row n row" for row
    using that wfpiv by (simp add: elim wf_sub)
  have elim_k: "fst (elim row) ! k = fst row ! k" if "wf_row n row" "k < j" for row k
  proof -
    have "k < n" using that jn by simp
    then show ?thesis using sub_nth [OF that(1) wfpiv] piv_k [OF that(2)] by (simp add: elim)
  qed
  have elim_j: "fst (elim row) ! j = 0" if "wf_row n row" for row
    using sub_nth [OF that wfpiv jn] piv_j by (simp add: elim)
  have sat_piv: "sat x y pivot = sat x y p"
    using pj by (simp add: pivot sat_scale)
  have sat_elim: "sat x y (elim row) = sat x y row" if "wf_row n row" "sat x y pivot" for row
    using sat_sub [OF that(1) wfpiv that(2)] by (simp add: elim)
  show "reduced_inv n (Suc j) (map elim red @ [pivot]) (map elim (pre @ post))"
    unfolding reduced_inv_def
  proof (intro conjI)
    show "length (map elim red @ [pivot]) = Suc j" using len by simp
    show "Suc j + length (map elim (pre @ post)) = n" using tot rest by simp
    show "\<forall>row\<in>set ((map elim red @ [pivot]) @ map elim (pre @ post)). wf_row n row"
      using wf rest wfpiv wf_elim by auto
    show "\<forall>i<Suc j. \<forall>k<Suc j.
            fst ((map elim red @ [pivot]) ! i) ! k = (if k = i then 1 else 0)"
    proof (intro allI impI)
      fix i k assume i: "i < Suc j" and k: "k < Suc j"
      show "fst ((map elim red @ [pivot]) ! i) ! k = (if k = i then 1 else 0)"
      proof (cases "i < j")
        case True
        then have row: "(map elim red @ [pivot]) ! i = elim (red ! i)"
          using len by (simp add: nth_append)
        have wfi: "wf_row n (red ! i)" using wf True len by simp
        show ?thesis
        proof (cases "k < j")
          case True
          with elim_k [OF wfi True] unit \<open>i < j\<close> row show ?thesis by simp
        next
          case False
          with k have "k = j" by simp
          with elim_j [OF wfi] \<open>i < j\<close> row show ?thesis by simp
        qed
      next
        case False
        with i have ij: "i = j" by simp
        then have row: "(map elim red @ [pivot]) ! i = pivot"
          using len by (simp add: nth_append)
        show ?thesis
        proof (cases "k < j")
          case True
          with piv_k [OF True] ij row show ?thesis by simp
        next
          case False
          with k have "k = j" by simp
          with piv_j ij row show ?thesis by simp
        qed
      qed
    qed
    show "\<forall>row\<in>set (map elim (pre @ post)). \<forall>k<Suc j. fst row ! k = 0"
    proof (intro ballI allI impI)
      fix row k assume r: "row \<in> set (map elim (pre @ post))" and k: "k < Suc j"
      then obtain row0 where row0: "row0 \<in> set rest" "row = elim row0"
        using rest by auto
      have wf0: "wf_row n row0" using wf row0(1) by simp
      show "fst row ! k = 0"
      proof (cases "k < j")
        case True
        with elim_k [OF wf0 True] zero row0 show ?thesis by simp
      next
        case False
        with k have "k = j" by simp
        with elim_j [OF wf0] row0 show ?thesis by simp
      qed
    qed
  qed
  show "(\<forall>row\<in>set ((map elim red @ [pivot]) @ map elim (pre @ post)). sat x y row)
         \<longleftrightarrow> (\<forall>row\<in>set (red @ rest). sat x y row)"
  proof
    assume new: "\<forall>row\<in>set ((map elim red @ [pivot]) @ map elim (pre @ post)). sat x y row"
    then have sp: "sat x y pivot" by simp
    show "\<forall>row\<in>set (red @ rest). sat x y row"
    proof
      fix row assume r: "row \<in> set (red @ rest)"
      show "sat x y row"
      proof (cases "row = p")
        case True
        with sp sat_piv show ?thesis by simp
      next
        case False
        with r rest have "elim row \<in> set ((map elim red @ [pivot]) @ map elim (pre @ post))"
          by auto
        with new have "sat x y (elim row)" by blast
        moreover have "wf_row n row" using wf r by blast
        ultimately show ?thesis using sat_elim sp by simp
      qed
    qed
  next
    assume old: "\<forall>row\<in>set (red @ rest). sat x y row"
    then have "sat x y p" using rest by simp
    then have sp: "sat x y pivot" using sat_piv by simp
    show "\<forall>row\<in>set ((map elim red @ [pivot]) @ map elim (pre @ post)). sat x y row"
    proof
      fix row assume "row \<in> set ((map elim red @ [pivot]) @ map elim (pre @ post))"
      then consider "row = pivot" | row0 where "row0 \<in> set (red @ rest)" "row = elim row0"
        using rest by auto
      then show "sat x y row"
      proof cases
        case 1
        with sp show ?thesis by simp
      next
        case 2
        then have "wf_row n row0" "sat x y row0" using wf old by blast+
        with sat_elim sp 2 show ?thesis by simp
      qed
    qed
  qed
qed

subsection \<open>The elimination\<close>

lemma gj_Nil: "gauss_jordan j red [] = Some red"
  by (subst gauss_jordan.simps) simp

lemma gj_None: "rest \<noteq> [] \<Longrightarrow> split_pivot j rest = None \<Longrightarrow> gauss_jordan j red rest = None"
  by (subst gauss_jordan.simps) simp

lemma gj_Some:
  "rest \<noteq> [] \<Longrightarrow> split_pivot j rest = Some (pre, p, post) \<Longrightarrow>
   gauss_jordan j red rest =
     gauss_jordan (Suc j)
       (map (\<lambda>row. sub_row row (fst row ! j) (scale_row (1 / fst p ! j) p)) red
          @ [scale_row (1 / fst p ! j) p])
       (map (\<lambda>row. sub_row row (fst row ! j) (scale_row (1 / fst p ! j) p)) (pre @ post))"
  by (subst gauss_jordan.simps) (simp add: Let_def)

lemma no_pivot_kernel:
  assumes inv: "reduced_inv n j red rest" and ne: "rest \<noteq> []"
    and nopiv: "\<forall>row\<in>set rest. fst row ! j = 0"
  shows "\<exists>x. length x = n \<and> x \<noteq> replicate n 0 \<and> (\<forall>row\<in>set (red @ rest). dotp (fst row) x = 0)"
proof -
  from inv have len: "length red = j" and tot: "j + length rest = n"
    and wf: "\<forall>row\<in>set (red @ rest). wf_row n row"
    and unit: "\<forall>i<j. \<forall>k<j. fst (red ! i) ! k = (if k = i then 1 else 0)"
    and zero: "\<forall>row\<in>set rest. \<forall>k<j. fst row ! k = 0"
    by (simp_all add: reduced_inv_def)
  have jn: "j < n" using tot ne by (cases rest) auto
  define x :: vec where
    "x = map (\<lambda>k. if k < j then - (fst (red ! k) ! j) else if k = j then 1 else 0) [0..<n]"
  have lx: "length x = n" by (simp add: x_def)
  have xk: "x ! k = (if k < j then - (fst (red ! k) ! j) else if k = j then 1 else 0)"
    if "k < n" for k using that by (simp add: x_def)
  have "x ! j \<noteq> replicate n 0 ! j" using jn xk [OF jn] by simp
  then have nz: "x \<noteq> replicate n 0" by metis
  have red0: "dotp (fst row) x = 0" if r: "row \<in> set red" for row
  proof -
    from r obtain i where i: "i < j" "row = red ! i"
      using len by (auto simp: in_set_conv_nth)
    let ?l = "fst row"
    have ll: "length ?l = n" using wf r by (simp add: wf_row_def)
    have "dotp ?l x = (\<Sum>k<n. ?l ! k * x ! k)" using ll lx by (simp add: dotp_sum)
    also have "\<dots> = (\<Sum>k<n. (if k = i then - (?l ! j) else 0) + (if k = j then ?l ! j else 0))"
    proof (rule sum.cong [OF refl])
      fix k assume "k \<in> {..<n}"
      then have k: "k < n" by simp
      show "?l ! k * x ! k = (if k = i then - (?l ! j) else 0) + (if k = j then ?l ! j else 0)"
      proof (cases "k < j")
        case True
        with unit i have "?l ! k = (if k = i then 1 else 0)" by simp
        with True xk [OF k] i show ?thesis by simp
      next
        case False
        with xk [OF k] i show ?thesis by auto
      qed
    qed
    also have "\<dots> = (\<Sum>k<n. if k = i then - (?l ! j) else 0) + (\<Sum>k<n. if k = j then ?l ! j else 0)"
      by (rule sum.distrib)
    also have "\<dots> = 0" using i jn by simp
    finally show ?thesis .
  qed
  have rest0: "dotp (fst row) x = 0" if r: "row \<in> set rest" for row
  proof -
    let ?l = "fst row"
    have ll: "length ?l = n" using wf r by (simp add: wf_row_def)
    have "dotp ?l x = (\<Sum>k<n. ?l ! k * x ! k)" using ll lx by (simp add: dotp_sum)
    also have "\<dots> = (\<Sum>k<n. 0)"
    proof (rule sum.cong [OF refl])
      fix k assume "k \<in> {..<n}"
      then have k: "k < n" by simp
      show "?l ! k * x ! k = 0"
        using zero nopiv r xk [OF k] by (cases "k < j"; cases "k = j") auto
    qed
    finally show ?thesis by simp
  qed
  from lx nz red0 rest0 show ?thesis by auto
qed

lemma gj_sound:
  assumes "reduced_inv n j red rest" and "gauss_jordan j red rest = Some res"
  shows "reduced_inv n n res [] \<and>
         (\<forall>x y. (\<forall>row\<in>set res. sat x y row) \<longleftrightarrow> (\<forall>row\<in>set (red @ rest). sat x y row))"
  using assms
proof (induction "length rest" arbitrary: j red rest)
  case 0
  then have "rest = []" by simp
  with 0 have "res = red" "j = n" by (simp_all add: gj_Nil reduced_inv_def)
  with 0 \<open>rest = []\<close> show ?case by simp
next
  case (Suc m)
  then have ne: "rest \<noteq> []" by auto
  show ?case
  proof (cases "split_pivot j rest")
    case None
    with Suc.prems(2) gj_None [OF ne None] show ?thesis by simp
  next
    case (Some t)
    obtain pre p post where t: "t = (pre, p, post)" by (cases t) auto
    let ?pivot = "scale_row (1 / fst p ! j) p"
    let ?elim = "\<lambda>row. sub_row row (fst row ! j) ?pivot"
    have sp: "split_pivot j rest = Some (pre, p, post)" using Some t by simp
    have run: "gauss_jordan (Suc j) (map ?elim red @ [?pivot]) (map ?elim (pre @ post)) = Some res"
      using gj_Some [OF ne sp] Suc.prems(2) by simp
    have inv': "reduced_inv n (Suc j) (map ?elim red @ [?pivot]) (map ?elim (pre @ post))"
      by (rule gj_step(1) [OF Suc.prems(1) sp refl refl])
    have eq: "(\<forall>row\<in>set ((map ?elim red @ [?pivot]) @ map ?elim (pre @ post)). sat x y row)
         \<longleftrightarrow> (\<forall>row\<in>set (red @ rest). sat x y row)" for x y
      by (rule gj_step(2) [OF Suc.prems(1) sp refl refl])
    have m: "m = length (map ?elim (pre @ post))"
      using split_pivot_Some [OF sp] Suc.hyps(2) by simp
    from Suc.hyps(1) [OF m inv' run] eq show ?thesis by simp
  qed
qed

lemma gj_fail:
  assumes "reduced_inv n j red rest" and "gauss_jordan j red rest = None"
  shows "\<exists>x. length x = n \<and> x \<noteq> replicate n 0 \<and>
           (\<forall>row\<in>set (red @ rest). sat x (replicate n 0) row)"
  using assms
proof (induction "length rest" arbitrary: j red rest)
  case 0
  then show ?case by (simp add: gj_Nil)
next
  case (Suc m)
  then have ne: "rest \<noteq> []" by auto
  show ?case
  proof (cases "split_pivot j rest")
    case None
    from no_pivot_kernel [OF Suc.prems(1) ne split_pivot_None [OF None]]
    show ?thesis by (auto simp: sat_def dotp_zero)
  next
    case (Some t)
    obtain pre p post where t: "t = (pre, p, post)" by (cases t) auto
    let ?pivot = "scale_row (1 / fst p ! j) p"
    let ?elim = "\<lambda>row. sub_row row (fst row ! j) ?pivot"
    have sp: "split_pivot j rest = Some (pre, p, post)" using Some t by simp
    have run: "gauss_jordan (Suc j) (map ?elim red @ [?pivot]) (map ?elim (pre @ post)) = None"
      using gj_Some [OF ne sp] Suc.prems(2) by simp
    have inv': "reduced_inv n (Suc j) (map ?elim red @ [?pivot]) (map ?elim (pre @ post))"
      by (rule gj_step(1) [OF Suc.prems(1) sp refl refl])
    have eq: "(\<forall>row\<in>set ((map ?elim red @ [?pivot]) @ map ?elim (pre @ post)). sat x y row)
         \<longleftrightarrow> (\<forall>row\<in>set (red @ rest). sat x y row)" for x y
      by (rule gj_step(2) [OF Suc.prems(1) sp refl refl])
    have m: "m = length (map ?elim (pre @ post))"
      using split_pivot_Some [OF sp] Suc.hyps(2) by simp
    from Suc.hyps(1) [OF m inv' run] eq show ?thesis by simp
  qed
qed

lemma init_inv:
  assumes "is_mat n n A"
  shows "reduced_inv n 0 [] (zip A (identity_rows n))"
proof -
  have "wf_row n row" if "row \<in> set (zip A (identity_rows n))" for row
  proof -
    from that obtain i where "i < n" "row = (A ! i, identity_rows n ! i)"
      using assms by (auto simp: in_set_zip is_mat_length identity_rows_def)
    then show ?thesis using assms by (simp add: wf_row_def is_mat_nth identity_rows_nth)
  qed
  then show ?thesis using assms by (simp add: reduced_inv_def is_mat_length identity_rows_def)
qed

lemma init_sat:
  assumes A: "is_mat n n A" and y: "length y = n"
  shows "(\<forall>row\<in>set (zip A (identity_rows n)). sat x y row) \<longleftrightarrow> map (\<lambda>r. dotp r x) A = y"
proof -
  have lz: "length A = n" "length (identity_rows n) = n" using A by (simp_all add: is_mat_length identity_rows_def)
  have "(\<forall>row\<in>set (zip A (identity_rows n)). sat x y row) \<longleftrightarrow> (\<forall>i<n. sat x y (A ! i, identity_rows n ! i))"
    using lz by (auto simp: in_set_zip) 
  also have "\<dots> \<longleftrightarrow> (\<forall>i<n. dotp (A ! i) x = y ! i)"
    using y by (simp add: sat_def identity_rows_nth dotp_unit)
  also have "\<dots> \<longleftrightarrow> map (\<lambda>r. dotp r x) A = y"
    using lz y by (auto simp: list_eq_iff_nth_eq)
  finally show ?thesis .
qed

lemma final_sat:
  assumes inv: "reduced_inv n n res []" and x: "length x = n"
  shows "(\<forall>row\<in>set res. sat x y row) \<longleftrightarrow> map (\<lambda>r. dotp r y) (map snd res) = x"
proof -
  from inv have len: "length res = n"
    and wf: "\<forall>row\<in>set res. wf_row n row"
    and unit: "\<forall>i<n. \<forall>k<n. fst (res ! i) ! k = (if k = i then 1 else 0)"
    by (simp_all add: reduced_inv_def)
  have fst_unit: "fst (res ! i) = map (\<lambda>j. if i = j then 1 else 0) [0..<n]" if "i < n" for i
  proof (rule nth_equalityI)
    show "length (fst (res ! i)) = length (map (\<lambda>j. if i = j then 1 else 0) [0..<n])"
      using wf len that by (simp add: wf_row_def)
  next
    fix k assume "k < length (fst (res ! i))"
    then have "k < n" using wf len that by (simp add: wf_row_def)
    then show "fst (res ! i) ! k = map (\<lambda>j. if i = j then 1 else 0) [0..<n] ! k"
      using unit that by auto
  qed
  have "(\<forall>row\<in>set res. sat x y row) \<longleftrightarrow> (\<forall>i<n. sat x y (res ! i))"
    using len by (metis in_set_conv_nth)
  also have "\<dots> \<longleftrightarrow> (\<forall>i<n. x ! i = dotp (snd (res ! i)) y)"
    using x by (simp add: sat_def fst_unit dotp_unit)
  also have "\<dots> \<longleftrightarrow> map (\<lambda>r. dotp r y) (map snd res) = x"
    using len x by (auto simp: list_eq_iff_nth_eq)
  finally show ?thesis .
qed

lemma gj_inverse_Some:
  assumes A: "is_mat n n A" and run: "gj_inverse A = Some N"
  shows "is_mat n n N"
    and "length x = n \<Longrightarrow> length y = n \<Longrightarrow>
         map (\<lambda>r. dotp r x) A = y \<longleftrightarrow> map (\<lambda>r. dotp r y) N = x"
proof -
  have lA: "length A = n" using A by (simp add: is_mat_length)
  from run obtain res where res: "gauss_jordan 0 [] (zip A (identity_rows n)) = Some res" "N = map snd res"
    using lA by (auto simp: gj_inverse_def split: option.splits)
  from gj_sound [OF init_inv [OF A] res(1)]
  have inv: "reduced_inv n n res []"
    and eq: "\<And>x y. (\<forall>row\<in>set res. sat x y row) \<longleftrightarrow> (\<forall>row\<in>set ([] @ zip A (identity_rows n)). sat x y row)"
    by blast+
  show "is_mat n n N"
    using inv by (auto simp: res(2) reduced_inv_def wf_row_def intro!: is_matI)
  show "map (\<lambda>r. dotp r x) A = y \<longleftrightarrow> map (\<lambda>r. dotp r y) N = x"
    if "length x = n" "length y = n"
    using eq [of x y] init_sat [OF A that(2), of x] final_sat [OF inv that(1), of y]
    by (simp add: res(2))
qed

lemma gj_inverse_None:
  assumes A: "is_mat n n A" and run: "gj_inverse A = None"
  shows "\<exists>x. length x = n \<and> x \<noteq> replicate n 0 \<and> map (\<lambda>r. dotp r x) A = replicate n 0"
proof -
  have lA: "length A = n" using A by (simp add: is_mat_length)
  from run have none: "gauss_jordan 0 [] (zip A (identity_rows n)) = None"
    using lA by (auto simp: gj_inverse_def split: option.splits)
  from gj_fail [OF init_inv [OF A] none] obtain x where
    x: "length x = n" "x \<noteq> replicate n 0" "\<forall>row\<in>set (zip A (identity_rows n)). sat x (replicate n 0) row"
    by auto
  from x(3) init_sat [OF A, of "replicate n 0" x]
  have "map (\<lambda>r. dotp r x) A = replicate n 0" by simp
  with x show ?thesis by blast
qed

subsection \<open>The result is the inverse matrix\<close>

lemma dotp_commute: "dotp a b = dotp b a"
proof (induction a arbitrary: b)
  case Nil
  show ?case by (simp add: dotp_def)
next
  case (Cons u a)
  then show ?case by (cases b) (simp_all add: dotp_def)
qed

lemma identity_rows_entry: "i < n \<Longrightarrow> j < n \<Longrightarrow> identity_rows n ! i ! j = (if i = j then 1 else 0)"
  by (simp add: identity_rows_def)

lemma dotp_unit_right:
  assumes "j < n" "length r = n"
  shows "dotp r (map (\<lambda>k. if j = k then 1 else 0) [0..<n]) = r ! j"
  using dotp_unit [OF assms] by (simp add: dotp_commute)

lemma identity_rows_vec: "length x = n \<Longrightarrow> map (\<lambda>r. dotp r x) (identity_rows n) = x"
  by (rule nth_equalityI) (simp_all add: identity_rows_def dotp_unit)

lemma zero_vec: "map (\<lambda>r. dotp r (replicate m 0)) B = replicate (length B) 0"
  by (rule nth_equalityI) (simp_all add: dotp_zero)

lemma real_numpy_sel [simp]:
  "np_add real_numpy = (+)" "np_sub real_numpy = (-)" "np_mul real_numpy = (*)"
  "np_div real_numpy = (/)" "np_float real_numpy = of_int" "np_sum real_numpy = sum_list"
  "np_dot real_numpy = dotp"
  by (simp_all add: real_numpy_def)

lemma eye_real: "eye real_numpy n = Arr2 n n (identity_rows n)"
  by (simp add: eye_def identity_rows_def)

lemma wf2_is_mat: "wf2 A \<longleftrightarrow> is_mat (nrows A) (ncols A) (entries A)"
  by (simp add: wf2_def is_mat_def)

lemma column_nth: "wf2 B \<Longrightarrow> l < nrows B \<Longrightarrow> column B j ! l = entries B ! l ! j"
  by (simp add: column_def wf2_rows)

lemma length_column: "wf2 B \<Longrightarrow> length (column B j) = nrows B"
  by (simp add: column_def wf2_rows)

lemma arr_dot_exact:
  assumes A: "wf2 A" and B: "wf2 B" and s: "ncols A = nrows B"
  shows "\<exists>C. arr_dot dotp A B = Inr C \<and> wf2 C \<and> nrows C = nrows A \<and> ncols C = ncols B \<and>
          (\<forall>i<nrows A. \<forall>j<ncols B.
             entries C ! i ! j = (\<Sum>l<ncols A. entries A ! i ! l * entries B ! l ! j))"
proof -
  let ?C = "Arr2 (nrows A) (ncols B)
              (map (\<lambda>r. map (\<lambda>j. dotp r (column B j)) [0..<ncols B]) (entries A))"
  have run: "arr_dot dotp A B = Inr ?C" by (simp add: arr_dot_def s)
  have wf: "wf2 ?C" by (rule wf2I) (simp_all add: wf2_rows [OF A])
  have "entries ?C ! i ! j = (\<Sum>l<ncols A. entries A ! i ! l * entries B ! l ! j)"
    if i: "i < nrows A" and j: "j < ncols B" for i j
  proof -
    have "entries ?C ! i ! j = dotp (entries A ! i) (column B j)"
      using i j by (simp add: wf2_rows [OF A])
    also have "\<dots> = (\<Sum>l<ncols A. entries A ! i ! l * column B j ! l)"
      using wf2_row [OF A i] length_column [OF B, of j] s by (simp add: dotp_sum)
    also have "\<dots> = (\<Sum>l<ncols A. entries A ! i ! l * entries B ! l ! j)"
      by (rule sum.cong) (simp_all add: column_nth [OF B] s)
    finally show ?thesis .
  qed
  with run wf show ?thesis by (intro exI [of _ ?C]) simp
qed

lemma vec_assoc:
  assumes B: "wf2 B" and A: "wf2 A" and s: "ncols B = nrows A"
    and C: "arr_dot dotp B A = Inr C" and x: "length x = ncols A"
  shows "map (\<lambda>r. dotp r x) (entries C) =
         map (\<lambda>r. dotp r (map (\<lambda>s. dotp s x) (entries A))) (entries B)"
proof -
  let ?n = "nrows B" and ?m = "ncols B" and ?k = "ncols A"
  from arr_dot_exact [OF B A s] C have Cm: "wf2 C" and Cn: "nrows C = ?n" and Ck: "ncols C = ?k"
    and Cnth: "\<forall>i<?n. \<forall>j<?k. entries C ! i ! j = (\<Sum>l<?m. entries B ! i ! l * entries A ! l ! j)"
    by auto
  have lA: "length (entries A) = ?m" and lB: "length (entries B) = ?n"
    and lC: "length (entries C) = ?n"
    using A B Cm Cn s by (simp_all add: wf2_rows)
  show ?thesis
  proof (rule nth_equalityI)
    show "length (map (\<lambda>r. dotp r x) (entries C)) =
          length (map (\<lambda>r. dotp r (map (\<lambda>s. dotp s x) (entries A))) (entries B))"
      by (simp add: lB lC)
  next
    fix i assume "i < length (map (\<lambda>r. dotp r x) (entries C))"
    then have i: "i < ?n" by (simp add: lC)
    have iC: "i < nrows C" using i Cn by simp
    have "dotp (entries C ! i) x = (\<Sum>j<?k. entries C ! i ! j * x ! j)"
      using wf2_row [OF Cm iC] x Ck by (simp add: dotp_sum)
    also have "\<dots> = (\<Sum>j<?k. (\<Sum>l<?m. entries B ! i ! l * entries A ! l ! j) * x ! j)"
      by (rule sum.cong) (simp_all add: Cnth i)
    also have "\<dots> = (\<Sum>j<?k. \<Sum>l<?m. entries B ! i ! l * (entries A ! l ! j * x ! j))"
      by (simp add: sum_distrib_right mult.assoc)
    also have "\<dots> = (\<Sum>l<?m. \<Sum>j<?k. entries B ! i ! l * (entries A ! l ! j * x ! j))"
      by (rule sum.swap)
    also have "\<dots> = (\<Sum>l<?m. entries B ! i ! l * (\<Sum>j<?k. entries A ! l ! j * x ! j))"
      by (simp add: sum_distrib_left)
    also have "\<dots> = (\<Sum>l<?m. entries B ! i ! l * (map (\<lambda>s. dotp s x) (entries A)) ! l)"
    proof (rule sum.cong [OF refl])
      fix l assume "l \<in> {..<?m}"
      then have l: "l < nrows A" using s by simp
      have "dotp (entries A ! l) x = (\<Sum>j<?k. entries A ! l ! j * x ! j)"
        using wf2_row [OF A l] x by (simp add: dotp_sum)
      then show "entries B ! i ! l * (\<Sum>j<?k. entries A ! l ! j * x ! j)
           = entries B ! i ! l * (map (\<lambda>s. dotp s x) (entries A)) ! l"
        using l lA s by simp
    qed
    also have "\<dots> = dotp (entries B ! i) (map (\<lambda>s. dotp s x) (entries A))"
      using wf2_row [OF B i] lA by (simp add: dotp_sum)
    finally show "map (\<lambda>r. dotp r x) (entries C) ! i
        = map (\<lambda>r. dotp r (map (\<lambda>s. dotp s x) (entries A))) (entries B) ! i"
      using i lB lC by simp
  qed
qed

lemma left_inverse_apply:
  assumes A: "wf2 A" and B: "wf2 B" and s: "ncols B = nrows A"
    and BA: "arr_dot dotp B A = Inr (eye real_numpy (ncols A))" and x: "length x = ncols A"
  shows "map (\<lambda>r. dotp r (map (\<lambda>s. dotp s x) (entries A))) (entries B) = x"
  using vec_assoc [OF B A s BA x] identity_rows_vec [OF x] by (simp add: eye_real)

lemma exact_inv_Inr:
  assumes A: "wf2 A" and sq: "nrows A = ncols A" and run: "exact_inv A = Inr N"
  shows "wf2 N" and "nrows N = nrows A" and "ncols N = nrows A"
    and "length x = nrows A \<Longrightarrow> length y = nrows A \<Longrightarrow>
         map (\<lambda>r. dotp r x) (entries A) = y \<longleftrightarrow> map (\<lambda>r. dotp r y) (entries N) = x"
proof -
  let ?n = "nrows A"
  have Am: "is_mat ?n ?n (entries A)" using A sq by (simp add: wf2_is_mat)
  from run sq obtain R where R: "gj_inverse (entries A) = Some R" "N = Arr2 ?n ?n R"
    by (auto simp: exact_inv_def split: option.splits)
  note gs = gj_inverse_Some [OF Am R(1)]
  show "wf2 N" "nrows N = ?n" "ncols N = ?n"
    using gs(1) by (simp_all add: R(2) wf2_is_mat)
  show "map (\<lambda>r. dotp r x) (entries A) = y \<longleftrightarrow> map (\<lambda>r. dotp r y) (entries N) = x"
    if "length x = ?n" "length y = ?n"
    using gs(2) [OF that] by (simp add: R(2))
qed

lemma exact_inv_Inl:
  assumes A: "wf2 A" and sq: "nrows A = ncols A" and run: "exact_inv A = Inl e"
  shows "e = LinAlgError"
    and "\<exists>x. length x = nrows A \<and> x \<noteq> replicate (nrows A) 0 \<and>
             map (\<lambda>r. dotp r x) (entries A) = replicate (nrows A) 0"
proof -
  let ?n = "nrows A"
  have Am: "is_mat ?n ?n (entries A)" using A sq by (simp add: wf2_is_mat)
  from run sq show "e = LinAlgError"
    by (auto simp: exact_inv_def split: option.splits)
  from run sq have "gj_inverse (entries A) = None"
    by (auto simp: exact_inv_def split: option.splits)
  from gj_inverse_None [OF Am this]
  show "\<exists>x. length x = ?n \<and> x \<noteq> replicate ?n 0 \<and>
             map (\<lambda>r. dotp r x) (entries A) = replicate ?n 0" .
qed

lemma exact_inv_is_inverse:
  assumes A: "wf2 A" and sq: "nrows A = ncols A" and run: "exact_inv A = Inr N"
  shows "arr_dot dotp A N = Inr (eye real_numpy (nrows A))"
    and "arr_dot dotp N A = Inr (eye real_numpy (nrows A))"
proof -
  let ?n = "nrows A"
  note N = exact_inv_Inr(1-3) [OF A sq run]
  note op = exact_inv_Inr(4) [OF A sq run]
  have lA: "length (entries A) = ?n" and lN: "length (entries N) = ?n"
    using A N by (simp_all add: wf2_rows)
  let ?e = "\<lambda>j. map (\<lambda>k. if j = k then (1::real) else 0) [0..<?n]"
  have col: "map (\<lambda>r. dotp r (?e j)) (entries M) = column M j"
    if "wf2 M" "nrows M = ?n" "ncols M = ?n" "j < ?n" for M j
    unfolding column_def using that
    by (intro nth_equalityI) (simp_all add: wf2_rows dotp_unit_right wf2_row)
  have AN: "dotp (entries A ! i) (column N j) = (if i = j then 1 else 0)" if "i < ?n" "j < ?n" for i j
  proof -
    have "map (\<lambda>r. dotp r (?e j)) (entries N) = column N j" by (rule col [OF N that(2)])
    then have "map (\<lambda>r. dotp r (column N j)) (entries A) = ?e j"
      using op [of "column N j" "?e j"] N by (simp add: length_column)
    then have "map (\<lambda>r. dotp r (column N j)) (entries A) ! i = ?e j ! i" by simp
    then show ?thesis using that lA by auto
  qed
  have NA: "dotp (entries N ! i) (column A j) = (if i = j then 1 else 0)" if "i < ?n" "j < ?n" for i j
  proof -
    have "map (\<lambda>r. dotp r (?e j)) (entries A) = column A j"
      using col [OF A refl _ that(2)] sq by simp
    then have "map (\<lambda>r. dotp r (column A j)) (entries N) = ?e j"
      using op [of "?e j" "column A j"] A by (simp add: length_column)
    then have "map (\<lambda>r. dotp r (column A j)) (entries N) ! i = ?e j ! i" by simp
    then show ?thesis using that lN by auto
  qed
  have prod: "map (\<lambda>r. map (\<lambda>j. dotp r (column Q j)) [0..<?n]) (entries P) = identity_rows ?n"
    if "length (entries P) = ?n"
       "\<And>i j. i < ?n \<Longrightarrow> j < ?n \<Longrightarrow> dotp (entries P ! i) (column Q j) = (if i = j then 1 else 0)"
    for P Q :: "real arr2"
  proof (rule nth_equalityI)
    show "length (map (\<lambda>r. map (\<lambda>j. dotp r (column Q j)) [0..<?n]) (entries P))
          = length (identity_rows ?n)"
      using that(1) by (simp add: identity_rows_def)
  next
    fix i assume "i < length (map (\<lambda>r. map (\<lambda>j. dotp r (column Q j)) [0..<?n]) (entries P))"
    then have i: "i < ?n" using that(1) by simp
    show "map (\<lambda>r. map (\<lambda>j. dotp r (column Q j)) [0..<?n]) (entries P) ! i = identity_rows ?n ! i"
      using i that by (intro nth_equalityI) (simp_all add: identity_rows_def)
  qed
  show "arr_dot dotp A N = Inr (eye real_numpy ?n)"
    using prod [OF lA AN] N sq by (simp add: arr_dot_def eye_real)
  show "arr_dot dotp N A = Inr (eye real_numpy ?n)"
    using prod [OF lN NA] N sq by (simp add: arr_dot_def eye_real)
qed

lemma invertible_exact_inv:
  assumes A: "wf2 A" and sq: "nrows A = ncols A"
  shows "invertible A \<longleftrightarrow> (\<exists>N. exact_inv A = Inr N)"
proof
  assume "invertible A"
  then obtain B where B: "wf2 B" "nrows B = nrows A" "ncols B = nrows A"
    "arr_dot dotp B A = Inr (eye real_numpy (nrows A))"
    by (auto simp: invertible_def)
  show "\<exists>N. exact_inv A = Inr N"
  proof (cases "exact_inv A")
    case (Inl e)
    from exact_inv_Inl(2) [OF A sq Inl] obtain x where
      x: "length x = nrows A" "x \<noteq> replicate (nrows A) 0"
         "map (\<lambda>r. dotp r x) (entries A) = replicate (nrows A) 0" by blast
    have "map (\<lambda>r. dotp r (map (\<lambda>s. dotp s x) (entries A))) (entries B) = x"
      using left_inverse_apply [OF A B(1), of x] B x(1) sq by simp
    then have "x = replicate (nrows A) 0"
      using x(3) B by (simp add: zero_vec wf2_rows)
    with x(2) show ?thesis by simp
  next
    case (Inr N)
    then show ?thesis by blast
  qed
next
  assume "\<exists>N. exact_inv A = Inr N"
  then obtain N where N: "exact_inv A = Inr N" by blast
  from exact_inv_Inr(1-3) [OF A sq N] exact_inv_is_inverse [OF A sq N] A sq
  show "invertible A" unfolding invertible_def by blast
qed

lemma inverse_unique_apply:
  assumes A: "wf2 A" and sq: "nrows A = ncols A" and run: "exact_inv A = Inr N"
    and B: "wf2 B" "nrows B = nrows A" "ncols B = nrows A"
    and BA: "arr_dot dotp B A = Inr (eye real_numpy (nrows A))" and v: "length v = nrows A"
  shows "map (\<lambda>r. dotp r v) (entries B) = map (\<lambda>r. dotp r v) (entries N)"
proof -
  let ?b = "map (\<lambda>r. dotp r v) (entries N)"
  have lb: "length ?b = nrows A"
    using exact_inv_Inr(1,2) [OF A sq run] by (simp add: wf2_rows)
  have "map (\<lambda>r. dotp r ?b) (entries A) = v"
    using exact_inv_Inr(4) [OF A sq run lb v] by simp
  with left_inverse_apply [OF A B(1), of ?b] B BA lb sq show ?thesis by simp
qed

subsection \<open>Evaluation on small arrays\<close>

lemma invertibleI:
  "wf2 A \<Longrightarrow> nrows A = n \<Longrightarrow> ncols A = n \<Longrightarrow> wf2 B \<Longrightarrow> nrows B = n \<Longrightarrow> ncols B = n \<Longrightarrow>
   arr_dot dotp A B = Inr (eye real_numpy n) \<Longrightarrow> arr_dot dotp B A = Inr (eye real_numpy n) \<Longrightarrow>
   invertible A"
  unfolding invertible_def by auto

lemma eye_real_2: "eye real_numpy (Suc (Suc 0)) = Arr2 (Suc (Suc 0)) (Suc (Suc 0)) [[1, 0], [0, 1]]"
  by (simp add: eye_def)

lemmas array_eval =
  arr_dot_def arr_dot_vec_def arr_T_def column_def dotp_def arr_add_def scalar_mul_def
  eye_real_2 wf2_def numeral_2_eq_2 numeral_3_eq_3

lemmas inverse_eval =
  exact_inv_def gj_inverse_def identity_rows_def scale_row_def sub_row_def numeral_2_eq_2

section \<open>Properties of float64 numbers\<close>

lemma power_two_mod_three: "(2::int) ^ k mod 3 = 1 \<or> (2::int) ^ k mod 3 = 2"
proof (induction k)
  case 0
  show ?case by simp
next
  case (Suc k)
  have "\<And>x::int. x mod 3 = 1 \<or> x mod 3 = 2 \<Longrightarrow> (2 * x) mod 3 = 1 \<or> (2 * x) mod 3 = 2"
    by presburger
  with Suc show ?case by simp
qed

lemma three_not_dvd_power_two: "\<not> (3::int) dvd 2 ^ k"
  using power_two_mod_three [of k] by (auto simp: dvd_eq_mod_eq_0)

lemma third_eq: "(x::real) / d = 1 / 3 \<Longrightarrow> d \<noteq> 0 \<Longrightarrow> 3 * x = d"
  by (simp add: field_simps)

lemma no_float_is_one_third: "valof b \<noteq> Some (1 / 3)"
proof (cases b)
  case (Finite s m e)
  define g :: int where "g = (if s then - 1 else 1) * m"
  show ?thesis
  proof
    assume v: "valof b = Some (1 / 3)"
    show False
    proof (cases "0 \<le> e")
      case True
      with v Finite have "of_int g * 2 ^ nat e = (1 / 3 :: real)"
        by (cases s) (simp_all add: valof_def g_def)
      then have "3 * (of_int g * 2 ^ nat e) = (1 :: real)" by simp
      then have "of_int (3 * (g * 2 ^ nat e)) = (of_int 1 :: real)" by simp
      then have "3 * (g * 2 ^ nat e) = 1" by (simp only: of_int_eq_iff)
      then have "(3::int) dvd 1" by (metis dvd_triv_left)
      then show False by simp
    next
      case False
      have "(if s then - 1 else 1) * (real_of_int m / 2 ^ nat (- e)) = of_int g / 2 ^ nat (- e)"
        by (simp add: g_def)
      moreover from v Finite False
      have "Some ((if s then - 1 else 1) * (real_of_int m / 2 ^ nat (- e))) = Some (1 / 3)"
        by (simp only: valof_def f64.case if_False)
      ultimately have "of_int g / 2 ^ nat (- e) = (1 / 3 :: real)"
        by (simp only: option.inject)
      then have "3 * of_int g = (2 ^ nat (- e) :: real)" by (rule third_eq) simp
      then have "of_int (3 * g) = (of_int (2 ^ nat (- e)) :: real)" by simp
      then have "3 * g = 2 ^ nat (- e)" by (simp only: of_int_eq_iff)
      then have "(3::int) dvd 2 ^ nat (- e)" by (metis dvd_triv_left)
      then show False using three_not_dvd_power_two by blast
    qed
  qed
qed (simp_all add: valof_def)

section \<open>Properties of the ridge helper\<close>

lemma arr_add_zero:
  assumes A: "wf2 A" and sq: "nrows A = p" "ncols A = p"
  shows "arr_add real_numpy A (scalar_mul real_numpy 0 (eye real_numpy p)) = Inr A"
proof -
  have "map2 (map2 (+)) (entries A) (entries (scalar_mul real_numpy 0 (eye real_numpy p))) = entries A"
  proof (rule nth_equalityI)
    show "length (map2 (map2 (+)) (entries A) (entries (scalar_mul real_numpy 0 (eye real_numpy p))))
          = length (entries A)"
      using A sq by (simp add: scalar_mul_def eye_def wf2_rows)
  next
    fix i assume "i < length (map2 (map2 (+)) (entries A) (entries (scalar_mul real_numpy 0 (eye real_numpy p))))"
    then have i: "i < p" using A sq by (simp add: scalar_mul_def eye_def wf2_rows)
    then have li: "length (entries A ! i) = p" using wf2_row [OF A, of i] sq by simp
    show "map2 (map2 (+)) (entries A) (entries (scalar_mul real_numpy 0 (eye real_numpy p))) ! i
          = entries A ! i"
      using i li A sq
      by (intro nth_equalityI) (simp_all add: scalar_mul_def eye_def wf2_rows)
  qed
  then show ?thesis
    using sq by (cases A) (simp add: arr_add_def scalar_mul_def eye_def)
qed

text \<open>
  Claim C2, amended. In exact real arithmetic, with the exact inverse for
  \<open>np.linalg.inv\<close>: let \<open>X\<close> be a design matrix and \<open>Y\<close> a target vector with one entry per
  row of \<open>X\<close> (so that \<open>X.T.dot(Y)\<close> is formed), and let \<open>X\<^sup>T X\<close> be invertible. Then \<open>ridge\<close>
  with \<open>a = 0\<close> returns a vector \<open>b\<close> with one entry per column of \<open>X\<close> that satisfies the
  normal equations \<open>X\<^sup>T X b = X\<^sup>T Y\<close> and equals \<open>B X\<^sup>T Y\<close> for every inverse \<open>B\<close> of
  \<open>X\<^sup>T X\<close>: the ordinary least-squares solution.
\<close>

theorem ridge_zero_is_ols:
  assumes X: "wf2 X"
    and G: "arr_dot dotp (arr_T X) X = Inr XtX"
    and V: "arr_dot_vec dotp (arr_T X) Y = Inr XtY"
    and inv: "invertible XtX"
  shows "\<exists>b. ridge real_numpy exact_inv X Y 0 = Inr b \<and> length b = ncols X \<and>
           arr_dot_vec dotp XtX b = Inr XtY \<and>
           (\<forall>B. wf2 B \<and> nrows B = ncols X \<and> ncols B = ncols X \<and>
                arr_dot dotp B XtX = Inr (eye real_numpy (ncols X)) \<longrightarrow>
                arr_dot_vec dotp B XtY = Inr b)"
proof -
  let ?p = "ncols X"
  from inv have Gm: "wf2 XtX" and sq: "nrows XtX = ncols XtX" by (simp_all add: invertible_def)
  from G have sG: "nrows XtX = ?p" "ncols XtX = ?p"
    by (auto simp: arr_dot_def split: if_splits)
  from V have lY: "length Y = nrows X" and XtY: "XtY = map (\<lambda>c. dotp c Y) (entries (arr_T X))"
    by (auto simp: arr_dot_vec_def split: if_splits)
  have lv: "length XtY = ?p" by (simp add: XtY arr_T_rows)
  have A: "arr_add real_numpy XtX (scalar_mul real_numpy 0 (eye real_numpy ?p)) = Inr XtX"
    by (rule arr_add_zero [OF Gm sG])
  from inv obtain N where N: "exact_inv XtX = Inr N"
    using invertible_exact_inv [OF Gm sq] by blast
  note Ns = exact_inv_Inr(1-3) [OF Gm sq N]
  let ?b = "map (\<lambda>r. dotp r XtY) (entries N)"
  have lb: "length ?b = ?p" using Ns sG by (simp add: wf2_rows)
  have run: "ridge real_numpy exact_inv X Y 0 = Inr ?b"
    using ridge_eq [of real_numpy X XtX 0 XtX exact_inv Y] G A N Ns sG lY
    by (simp add: XtY)
  have "map (\<lambda>r. dotp r ?b) (entries XtX) = XtY"
    using exact_inv_Inr(4) [OF Gm sq N, of ?b XtY] lb lv sG by simp
  then have normal: "arr_dot_vec dotp XtX ?b = Inr XtY"
    using lb sG by (simp add: arr_dot_vec_def)
  have "arr_dot_vec dotp B XtY = Inr ?b"
    if "wf2 B \<and> nrows B = ?p \<and> ncols B = ?p \<and> arr_dot dotp B XtX = Inr (eye real_numpy ?p)" for B
    using inverse_unique_apply [OF Gm sq N, of B XtY] that lv sG
    by (simp add: arr_dot_vec_def)
  with run lb normal show ?thesis by blast
qed

theorem ridge_zero_is_ols_witness:
  "wf2 (Arr2 3 2 [[1, 0], [0, 1], [1, 1 :: real]]) \<and>
   arr_dot dotp (arr_T (Arr2 3 2 [[1, 0], [0, 1], [1, 1]])) (Arr2 3 2 [[1, 0], [0, 1], [1, 1]])
     = Inr (Arr2 2 2 [[2, 1], [1, 2]]) \<and>
   arr_dot_vec dotp (arr_T (Arr2 3 2 [[1, 0], [0, 1], [1, 1]])) [1, 2, 3] = Inr [4, 5] \<and>
   invertible (Arr2 2 2 [[2, 1], [1, 2]]) \<and>
   ridge real_numpy exact_inv (Arr2 3 2 [[1, 0], [0, 1], [1, 1]]) [1, 2, 3] 0 = Inr [1, 2] \<and>
   arr_dot_vec dotp (Arr2 2 2 [[2, 1], [1, 2]]) [1, 2] = Inr [4, 5]"
proof -
  let ?X = "Arr2 3 2 [[1, 0], [0, 1], [1, 1::real]]"
  let ?A = "Arr2 2 2 [[2, 1], [1, 2::real]]"
  have X: "wf2 ?X" by (simp add: wf2_def)
  have G: "arr_dot dotp (arr_T ?X) ?X = Inr ?A"
    by (simp add: array_eval)
  have V: "arr_dot_vec dotp (arr_T ?X) [1, 2, 3] = Inr [4, 5]"
    by (simp add: array_eval)
  have I: "invertible ?A"
    by (rule invertibleI [of _ 2 "Arr2 2 2 [[2 / 3, - (1 / 3)], [- (1 / 3), 2 / 3]]"])
      (simp_all add: array_eval)
  have A: "arr_add real_numpy ?A (scalar_mul real_numpy 0 (eye real_numpy 2)) = Inr ?A"
    by (simp add: array_eval)
  have E: "exact_inv ?A = Inr (Arr2 2 2 [[2 / 3, - (1 / 3)], [- (1 / 3), 2 / 3]])"
    by (simp add: inverse_eval)
  have R: "ridge real_numpy exact_inv ?X [1, 2, 3] 0 = Inr [1, 2]"
    using ridge_eq [where N = real_numpy and X = ?X and XtX = ?A and a = 0 and A = ?A
        and linalg_inv = exact_inv and Y = "[1, 2, 3]"] G A E
    by (simp add: array_eval)
  from ridge_zero_is_ols [OF X G V I] R
  have "arr_dot_vec dotp ?A [1, 2] = Inr [4, 5]" by auto
  with X G V I R show ?thesis by simp
qed

text \<open>
  Claim C2 as stated, for the float64 numbers of numpy and for every \<open>Y\<close>. For
  \<open>X = [[3]]\<close> and \<open>Y = [1]\<close> the ordinary least-squares solution is \<open>1/3\<close>, which is the
  value of no float64 number: whatever float64 vector \<open>ridge\<close> returns, it is not exactly
  that solution. And with \<open>X\<close> of two rows and \<open>Y\<close> of three entries \<open>X\<^sup>T X = [[2]]\<close> is
  invertible while \<open>ridge\<close> raises, whatever \<open>np.linalg.inv\<close> does.
\<close>

theorem ridge_zero_counterexample:
  "(\<forall>b. valof b \<noteq> Some (1 / 3)) \<and>
   ridge real_numpy exact_inv (Arr2 1 1 [[3]]) [1] 0 = Inr [1 / 3] \<and>
   arr_dot dotp (arr_T (Arr2 2 1 [[1], [1]])) (Arr2 2 1 [[1], [1]]) = Inr (Arr2 1 1 [[2]]) \<and>
   invertible (Arr2 1 1 [[2]]) \<and>
   (\<forall>linalg_inv. \<exists>e. ridge real_numpy linalg_inv (Arr2 2 1 [[1], [1]]) [1, 2, 3] 0 = Inl e)"
proof -
  have "ridge real_numpy exact_inv (Arr2 1 1 [[3]]) [1] 0 = Inr [1 / 3]"
    by (simp add: ridge_def arr_dot_def arr_T_def column_def dotp_def arr_add_def scalar_mul_def
        eye_def exact_inv_def gj_inverse_def identity_rows_def arr_dot_vec_def
        scale_row_def sub_row_def)
  moreover have "arr_dot dotp (arr_T (Arr2 2 1 [[1], [1]])) (Arr2 2 1 [[1], [1]]) = Inr (Arr2 1 1 [[2]])"
    by (simp add: arr_dot_def arr_T_def column_def dotp_def)
  moreover have "invertible (Arr2 1 1 [[2]])"
    by (rule invertibleI [of _ 1 "Arr2 1 1 [[1 / 2]]"])
      (simp_all add: wf2_def arr_dot_def column_def dotp_def eye_def)
  moreover have "\<exists>e. ridge real_numpy linalg_inv (Arr2 2 1 [[1], [1]]) [1, 2, 3] 0 = Inl e"
    for linalg_inv
    by (rule ridge_fails_on_length_mismatch) simp
  ultimately show ?thesis using no_float_is_one_third by blast
qed




section \<open>Properties of the PCA notebook\<close>






lemma demean_shape [simp]: "nrows (demean N y) = nrows y" "ncols (demean N y) = ncols y"
  by (simp_all add: demean_def)






end
